theory Spec2Isabelle
  imports Complex_Main "HOL-Library.Multiset" "HOL-Library.Log_Nat"
begin

section \<open>Python values: errors, list indexing, treasures\<close>

text \<open>
  Every exception of the Python code is a value of \<open>error\<close>; a function that can raise
  returns \<open>error + 'a\<close> with \<open>Inl\<close> for the raise.  \<open>ContractViolation\<close> stands for the
  loud failure the specification demands when a key that is absent from a store is
  deleted.
\<close>

datatype error = IndexError | AttributeError | ContractViolation

text \<open>Python list indexing \<open>xs[i]\<close>: negative indices count from the end, anything else
  out of range raises.\<close>

definition py_index :: "nat \<Rightarrow> int \<Rightarrow> nat option" where
  "py_index n i =
     (if 0 \<le> i \<and> i < int n then Some (nat i)
      else if - int n \<le> i \<and> i < 0 then Some (nat (int n + i))
      else None)"

definition py_nth :: "'a list \<Rightarrow> int \<Rightarrow> error + 'a" where
  "py_nth xs i = (case py_index (length xs) i of None \<Rightarrow> Inl IndexError | Some j \<Rightarrow> Inr (xs ! j))"

text \<open>
  Modelled from the spec: the class \<open>Treasure\<close> (module \<open>treasure\<close>) is not part of the
  sources.  The specification gives it a name, a weight, a value and the derived ratio
  value/weight, which is the sole ranking key.  The value field is called \<open>worth\<close> here.
  The ratio is the exact quotient.
\<close>

record Treasure =
  name :: string
  weight :: int
  worth :: int

definition value_to_weight_ratio :: "Treasure \<Rightarrow> rat" where
  "value_to_weight_ratio t = of_int (worth t) / of_int (weight t)"

section \<open>The binary search tree behind \<open>BetterBST\<close>\<close>

text \<open>
  Modelled from the spec: the base class \<open>BinarySearchTree\<close> (module
  \<open>data_structures.bst\<close>) with \<open>is_empty\<close>, \<open>insert_aux\<close>, \<open>__setitem__\<close>,
  \<open>__delitem__\<close>, \<open>get_maximal\<close> and the in-order iterator is not part of the sources.
  The specification describes a search tree of nodes with a key, an item and two
  children, in which every key is \<open>\<ge>\<close> the keys of its left subtree and \<open>\<le>\<close> the keys
  of its right subtree, duplicates permitted, with the standard search-tree deletion
  that fails loudly on an absent key.  The specification leaves the side on which an
  equal key is inserted open, so the model takes it as the parameter \<open>tie\<close>.
\<close>

datatype ('k, 'i) tree = Leaf | Node "('k, 'i) tree" 'k 'i "('k, 'i) tree"

datatype tie = TieLeft | TieRight

fun is_empty :: "('k, 'i) tree \<Rightarrow> bool" where
  "is_empty Leaf = True"
| "is_empty (Node l k i r) = False"

fun inorder :: "('k, 'i) tree \<Rightarrow> ('k \<times> 'i) list" where
  "inorder Leaf = []"
| "inorder (Node l k i r) = inorder l @ (k, i) # inorder r"

fun height :: "('k, 'i) tree \<Rightarrow> nat" where
  "height Leaf = 0"
| "height (Node l k i r) = Suc (max (height l) (height r))"

text \<open>\<open>insert_aux current key item current_depth\<close>: the depth is only recorded in the
  node of the Python class and decides nothing.\<close>

fun insert_aux :: "tie \<Rightarrow> ('k::linorder, 'i) tree \<Rightarrow> 'k \<Rightarrow> 'i \<Rightarrow> int \<Rightarrow> ('k, 'i) tree" where
  "insert_aux tb Leaf k i d = Node Leaf k i Leaf"
| "insert_aux tb (Node l k' i' r) k i d =
     (if k < k' then Node (insert_aux tb l k i (d + 1)) k' i' r
      else if k' < k then Node l k' i' (insert_aux tb r k i (d + 1))
      else (case tb of
              TieLeft \<Rightarrow> Node (insert_aux tb l k i (d + 1)) k' i' r
            | TieRight \<Rightarrow> Node l k' i' (insert_aux tb r k i (d + 1))))"

text \<open>\<open>self[key] = item\<close>.\<close>

definition setitem :: "tie \<Rightarrow> ('k::linorder, 'i) tree \<Rightarrow> 'k \<Rightarrow> 'i \<Rightarrow> ('k, 'i) tree" where
  "setitem tb self_root k i = insert_aux tb self_root k i 1"

text \<open>The rightmost and the leftmost node; \<open>None\<close> on the empty tree, where the Python
  code would dereference \<open>None\<close>.\<close>

fun get_maximal :: "('k, 'i) tree \<Rightarrow> ('k \<times> 'i) option" where
  "get_maximal Leaf = None"
| "get_maximal (Node l k i r) = (if r = Leaf then Some (k, i) else get_maximal r)"

fun get_minimal :: "('k, 'i) tree \<Rightarrow> ('k \<times> 'i) option" where
  "get_minimal Leaf = None"
| "get_minimal (Node l k i r) = (if l = Leaf then Some (k, i) else get_minimal l)"

text \<open>\<open>del self[key]\<close>: search from the root; the first node whose key equals the
  argument is removed.  A node with two children takes the key and item of its
  successor (the leftmost node of its right subtree), whose key is then deleted from
  the right subtree.\<close>

fun delete_aux :: "('k::linorder, 'i) tree \<Rightarrow> 'k \<Rightarrow> error + ('k, 'i) tree" where
  "delete_aux Leaf k = Inl ContractViolation"
| "delete_aux (Node l k' i' r) k =
     (if k < k' then
        (case delete_aux l k of Inl e \<Rightarrow> Inl e | Inr l' \<Rightarrow> Inr (Node l' k' i' r))
      else if k' < k then
        (case delete_aux r k of Inl e \<Rightarrow> Inl e | Inr r' \<Rightarrow> Inr (Node l k' i' r'))
      else if l = Leaf then Inr r
      else if r = Leaf then Inr l
      else (case get_minimal r of
              None \<Rightarrow> Inl AttributeError
            | Some (sk, si) \<Rightarrow>
                (case delete_aux r sk of Inl e \<Rightarrow> Inl e | Inr r' \<Rightarrow> Inr (Node l sk si r'))))"

section \<open>\<open>BetterBST\<close>: sort, then insert the midpoints\<close>

text \<open>
  Modelled from the spec: \<open>mergesort\<close> (module \<open>algorithms.mergesort\<close>) is not part of
  the sources.  The specification requires a true stable sort by key, ascending.
\<close>

definition mergesort :: "'a list \<Rightarrow> ('a \<Rightarrow> 'k::linorder) \<Rightarrow> 'a list" where
  "mergesort l key_of = sort_key key_of l"

definition sort_elements :: "('k::linorder \<times> 'i) list \<Rightarrow> ('k \<times> 'i) list" where
  "sort_elements elements = mergesort elements fst"

text \<open>\<open>_build_balanced_tree_aux\<close> threads the tree (\<open>self.root\<close>) through its two
  recursive calls.  The first node is made by \<open>insert_aux\<close> at the current depth, every
  later one by \<open>self[key] = item\<close>, which searches from the root.\<close>

function build_balanced_tree_aux ::
  "tie \<Rightarrow> ('k::linorder \<times> 'i) list \<Rightarrow> int \<Rightarrow> int \<Rightarrow> int \<Rightarrow> ('k, 'i) tree \<Rightarrow> error + ('k, 'i) tree" where
  "build_balanced_tree_aux tb elements beginning_element ending_element current_depth self_root =
     (if beginning_element > ending_element then Inr self_root
      else
        let middle_element = (beginning_element + ending_element) div 2 in
        case py_nth elements middle_element of
          Inl e \<Rightarrow> Inl e
        | Inr (k, i) \<Rightarrow>
            let root1 = (if self_root = Leaf then insert_aux tb self_root k i current_depth
                         else setitem tb self_root k i) in
            case build_balanced_tree_aux tb elements beginning_element (middle_element - 1)
                   (current_depth + 1) root1 of
              Inl e \<Rightarrow> Inl e
            | Inr root2 \<Rightarrow>
                build_balanced_tree_aux tb elements (middle_element + 1) ending_element
                  (current_depth + 1) root2)"
  by pat_completeness auto
termination
  by (relation "measure (\<lambda>(tb, es, b, e, d, t). nat (e - b + 1))") auto

definition build_balanced_tree :: "tie \<Rightarrow> ('k::linorder \<times> 'i) list \<Rightarrow> error + ('k, 'i) tree" where
  "build_balanced_tree tb elements =
     build_balanced_tree_aux tb elements 0 (int (length elements) - 1) 0 Leaf"

definition BetterBST :: "tie \<Rightarrow> ('k::linorder \<times> 'i) list \<Rightarrow> error + ('k, 'i) tree" where
  "BetterBST tb elements = build_balanced_tree tb (sort_elements elements)"

section \<open>\<open>SpookyHollow\<close>\<close>

text \<open>A \<open>LinkedStack\<close> is a list with its top first.\<close>

definition push :: "'a list \<Rightarrow> 'a \<Rightarrow> 'a list" where
  "push stack x = x # stack"

fun pop_all :: "nat \<Rightarrow> 'a list \<Rightarrow> 'a list \<Rightarrow> 'a list" where
  "pop_all 0 stack acc = acc"
| "pop_all (Suc n) [] acc = acc"
| "pop_all (Suc n) (x # stack) acc = pop_all n stack (acc @ [x])"

text \<open>\<open>restructure_hollow\<close>: the treasures keyed by their ratio.\<close>

definition spooky_restructure_hollow :: "tie \<Rightarrow> Treasure list \<Rightarrow> error + (rat, Treasure) tree" where
  "spooky_restructure_hollow tb treasures =
     BetterBST tb (map (\<lambda>treasure. (value_to_weight_ratio treasure, treasure)) treasures)"

text \<open>\<open>SpookyHollow.get_optimal_treasure\<close>: the result and the tree afterwards.\<close>

definition spooky_get_optimal_treasure ::
  "(rat, Treasure) tree \<Rightarrow> int \<Rightarrow> error + (Treasure option \<times> (rat, Treasure) tree)" where
  "spooky_get_optimal_treasure treasures backpack_capacity =
     (if is_empty treasures then Inr (None, treasures)
      else case get_maximal treasures of
        None \<Rightarrow> Inl AttributeError
      | Some (best_key, best_item) \<Rightarrow>
          if weight best_item \<le> backpack_capacity then
            (case delete_aux treasures best_key of
               Inl e \<Rightarrow> Inl e
             | Inr treasures' \<Rightarrow> Inr (Some best_item, treasures'))
          else
            let ordered_nodes = inorder treasures;
                stack = foldl push [] ordered_nodes;
                ordered_nodes = pop_all (length stack) stack []
            in case find (\<lambda>(ratio, treasure). weight treasure \<le> backpack_capacity) ordered_nodes of
                 None \<Rightarrow> Inr (None, treasures)
               | Some (treasure_to_delete, chosen_treasure) \<Rightarrow>
                   (case delete_aux treasures treasure_to_delete of
                      Inl e \<Rightarrow> Inl e
                    | Inr treasures' \<Rightarrow> Inr (Some chosen_treasure, treasures')))"

text \<open>The treasures of a store, in ascending key order.\<close>

definition stored :: "('k, 'i) tree \<Rightarrow> 'i list" where
  "stored t = map snd (inorder t)"

section \<open>The midpoint recursion, stated directly\<close>

text \<open>The order in which \<open>_build_balanced_tree_aux\<close> meets the elements of a sorted
  list: the midpoint, then the left part, then the right part.\<close>

function midpoint_order :: "'a list \<Rightarrow> 'a list" where
  "midpoint_order xs =
     (if xs = [] then []
      else let m = (length xs - 1) div 2
           in xs ! m # midpoint_order (take m xs) @ midpoint_order (drop (Suc m) xs))"
  by pat_completeness auto
termination
  by (relation "measure length") (auto simp: neq_Nil_conv less_Suc_eq_le)

text \<open>The tree the specification describes: a node from the element at the midpoint,
  the left child from the elements before it, the right child from those after it.\<close>

function balanced :: "('k \<times> 'i) list \<Rightarrow> ('k, 'i) tree" where
  "balanced xs =
     (if xs = [] then Leaf
      else let m = (length xs - 1) div 2
           in Node (balanced (take m xs)) (fst (xs ! m)) (snd (xs ! m))
                (balanced (drop (Suc m) xs)))"
  by pat_completeness auto
termination
  by (relation "measure length") (auto simp: neq_Nil_conv less_Suc_eq_le)

text \<open>One insertion, whatever depth is passed along.\<close>

definition ins :: "tie \<Rightarrow> ('k::linorder, 'i) tree \<Rightarrow> 'k \<times> 'i \<Rightarrow> ('k, 'i) tree" where
  "ins tb t p = insert_aux tb t (fst p) (snd p) 0"

section \<open>Predicates used to state the claims about stores\<close>

text \<open>A stored pair is feasible when its treasure fits the capacity.\<close>

definition feasible :: "int \<Rightarrow> rat \<times> Treasure \<Rightarrow> bool" where
  "feasible c p = (weight (snd p) \<le> c)"

text \<open>The stores with pairwise distinct ratios: the keys are strictly ascending in order
  and every key is the ratio of its treasure.\<close>

definition spooky_inv :: "(rat, Treasure) tree \<Rightarrow> bool" where
  "spooky_inv t \<longleftrightarrow>
     sorted_wrt (<) (map fst (inorder t)) \<and>
     list_all (\<lambda>p. fst p = value_to_weight_ratio (snd p)) (inorder t)"

text \<open>Treasures for the examples: two of ratio 2, and the two of the end-to-end example
  of the specification (ratios 5 and 1).\<close>

definition crown :: Treasure where
  "crown = \<lparr>name = ''crown'', weight = 10, worth = 20\<rparr>"

definition ring :: Treasure where
  "ring = \<lparr>name = ''ring'', weight = 1, worth = 2\<rparr>"

definition coin :: Treasure where
  "coin = \<lparr>name = ''coin'', weight = 2, worth = 10\<rparr>"

definition rock :: Treasure where
  "rock = \<lparr>name = ''rock'', weight = 5, worth = 5\<rparr>"

section \<open>The max-heap behind \<open>MysticalHollow\<close>\<close>

text \<open>
  Modelled from the spec: the class \<open>MaxHeap\<close> (module \<open>data_structures.heap\<close>) with
  \<open>heapify\<close>, \<open>get_max\<close>, \<open>add\<close> and \<open>__len__\<close> is not part of the sources.  The
  specification describes an array-backed max-heap keyed by ratio in which every node's
  key is \<open>\<ge>\<close> the keys of both children, built by heapify over the full treasure list,
  with a pop of the maximum and a reinsertion that each walk one root-to-leaf path.  The
  array is a list; the children of position \<open>k\<close> are at \<open>2k + 1\<close> and \<open>2k + 2\<close>.
\<close>

definition swap_at :: "nat \<Rightarrow> nat \<Rightarrow> 'a list \<Rightarrow> 'a list" where
  "swap_at i j xs = xs[i := xs ! j, j := xs ! i]"

lemma length_swap_at [simp]: "length (swap_at i j xs) = length xs"
  by (simp add: swap_at_def)

definition parent :: "nat \<Rightarrow> nat" where
  "parent k = (k - 1) div 2"

function rise :: "nat \<Rightarrow> Treasure list \<Rightarrow> Treasure list" where
  "rise k h =
     (if 0 < k \<and> k < length h \<and>
         value_to_weight_ratio (h ! parent k) < value_to_weight_ratio (h ! k)
      then rise (parent k) (swap_at k (parent k) h)
      else h)"
  by pat_completeness auto
termination
  by (relation "measure (\<lambda>(k, h). k)") (auto simp: parent_def)

definition add :: "Treasure list \<Rightarrow> Treasure \<Rightarrow> Treasure list" where
  "add h element = rise (length h) (h @ [element])"

definition largest_child :: "nat \<Rightarrow> Treasure list \<Rightarrow> nat" where
  "largest_child k h =
     (if 2 * k + 2 < length h \<and>
         value_to_weight_ratio (h ! (2 * k + 1)) < value_to_weight_ratio (h ! (2 * k + 2))
      then 2 * k + 2 else 2 * k + 1)"

function sink :: "nat \<Rightarrow> Treasure list \<Rightarrow> Treasure list" where
  "sink k h =
     (if 2 * k + 1 < length h then
        (let child = largest_child k h in
         if value_to_weight_ratio (h ! k) < value_to_weight_ratio (h ! child)
         then sink child (swap_at k child h)
         else h)
      else h)"
  by pat_completeness auto
termination
  by (relation "measure (\<lambda>(k, h). length h - k)") (auto simp: largest_child_def)

text \<open>\<open>get_max\<close>: the root is returned, the last element takes its place and sinks.  On the
  empty heap it raises.\<close>

definition get_max :: "Treasure list \<Rightarrow> error + (Treasure \<times> Treasure list)" where
  "get_max h =
     (if h = [] then Inl IndexError
      else Inr (h ! 0, if length h = 1 then [] else sink 0 (butlast (h[0 := last h]))))"

text \<open>\<open>heapify\<close>: every position sinks, the last one first.\<close>

definition heapify :: "Treasure list \<Rightarrow> Treasure list" where
  "heapify points = fold sink (rev [0 ..< length points]) points"

declare rise.simps [simp del] sink.simps [simp del]

lemma length_sink [simp]: "length (sink k h) = length h"
proof (induction k h rule: sink.induct)
  case (1 k h)
  show ?case
    using "1.IH" by (subst sink.simps) (simp add: Let_def)
qed

lemma length_get_max: "get_max h = Inr (x, h') \<Longrightarrow> length h' < length h"
  by (auto simp: get_max_def split: if_splits)

section \<open>\<open>MysticalHollow\<close>\<close>

text \<open>A mystical hollow keeps the generated list in \<open>treasures\<close> and the heap in a second
  attribute.\<close>

record MysticalHollow =
  treasures :: "Treasure list"
  heap :: "Treasure list"

text \<open>\<open>Hollow.__init__\<close> followed by \<open>restructure_hollow\<close>: the heap made by
  \<open>MaxHeap(len(self.treasures))\<close> is replaced at once by the result of \<open>heapify\<close>.\<close>

definition mystical_restructure_hollow :: "Treasure list \<Rightarrow> MysticalHollow" where
  "mystical_restructure_hollow generated = \<lparr>treasures = generated, heap = heapify generated\<rparr>"

text \<open>\<open>Hollow.__len__\<close>.\<close>

definition hollow_len :: "MysticalHollow \<Rightarrow> nat" where
  "hollow_len hollow = length (treasures hollow)"

text \<open>The test \<open>self.heap == 0\<close> compares a heap object with a number.
  Modelled from the spec: \<open>MaxHeap\<close> is described with no equality of its own, so the
  comparison is Python's default one and is false.\<close>

definition heap_equals_zero :: "Treasure list \<Rightarrow> bool" where
  "heap_equals_zero h = False"

text \<open>The \<open>while\<close> loop of \<open>get_optimal_treasure\<close>: the chosen treasure, the heap and the
  temporary linked list when the loop ends.\<close>

function pop_until_fits ::
  "int \<Rightarrow> Treasure list \<Rightarrow> Treasure list \<Rightarrow>
     error + (Treasure option \<times> Treasure list \<times> Treasure list)" where
  "pop_until_fits backpack_capacity h temporary_linked_list =
     (if length h > 0 then
        (case get_max h of
           Inl e \<Rightarrow> Inl e
         | Inr (treasure, h') \<Rightarrow>
             if weight treasure \<le> backpack_capacity
             then Inr (Some treasure, h', temporary_linked_list)
             else pop_until_fits backpack_capacity h' (temporary_linked_list @ [treasure]))
      else Inr (None, h, temporary_linked_list))"
  by pat_completeness auto
termination
  by (relation "measure (\<lambda>(c, h, b). length h)") (auto dest: length_get_max)

text \<open>\<open>MysticalHollow.get_optimal_treasure\<close>: the result and the hollow afterwards.\<close>

definition mystical_get_optimal_treasure ::
  "MysticalHollow \<Rightarrow> int \<Rightarrow> error + (Treasure option \<times> MysticalHollow)" where
  "mystical_get_optimal_treasure hollow backpack_capacity =
     (if heap_equals_zero (heap hollow) then Inr (None, hollow)
      else case pop_until_fits backpack_capacity (heap hollow) [] of
        Inl e \<Rightarrow> Inl e
      | Inr (chosen_treasure, h, temporary_linked_list) \<Rightarrow>
          Inr (chosen_treasure, hollow\<lparr>heap := foldl add h temporary_linked_list\<rparr>))"

text \<open>What a result takes away from a store.\<close>

definition taken :: "Treasure option \<Rightarrow> Treasure multiset" where
  "taken result = (case result of None \<Rightarrow> {#} | Some x \<Rightarrow> {#x#})"

section \<open>Predicates used to state the facts about the heap\<close>

text \<open>The ratio at a position; the heap order from a position on (\<open>ok_below 0\<close> is the
  invariant of the specification: every node's key is \<open>\<ge>\<close> both children's keys); and
  what \<open>sink\<close> and \<open>rise\<close> need of the array they start on.\<close>

definition rk :: "Treasure list \<Rightarrow> nat \<Rightarrow> rat" where
  "rk h i = value_to_weight_ratio (h ! i)"

definition ok_below :: "nat \<Rightarrow> Treasure list \<Rightarrow> bool" where
  "ok_below s h \<longleftrightarrow> (\<forall>i < length h. 0 < i \<and> s \<le> parent i \<longrightarrow> rk h i \<le> rk h (parent i))"

definition heap_inv :: "Treasure list \<Rightarrow> bool" where
  "heap_inv h \<longleftrightarrow> ok_below 0 h"

definition sink_pre :: "nat \<Rightarrow> nat \<Rightarrow> Treasure list \<Rightarrow> bool" where
  "sink_pre s k h \<longleftrightarrow> s \<le> k \<and>
     (\<forall>i < length h. 0 < i \<and> s \<le> parent i \<and> parent i \<noteq> k \<longrightarrow> rk h i \<le> rk h (parent i)) \<and>
     (0 < k \<and> s \<le> parent k \<longrightarrow>
        (\<forall>i < length h. 0 < i \<and> parent i = k \<longrightarrow> rk h i \<le> rk h (parent k)))"

definition rise_pre :: "nat \<Rightarrow> Treasure list \<Rightarrow> bool" where
  "rise_pre k h \<longleftrightarrow>
     (\<forall>i < length h. 0 < i \<and> i \<noteq> k \<longrightarrow> rk h i \<le> rk h (parent i)) \<and>
     (0 < k \<longrightarrow> (\<forall>i < length h. 0 < i \<and> parent i = k \<longrightarrow> rk h i \<le> rk h (parent k)))"

section \<open>The best feasible treasure, and runs of extractions\<close>

text \<open>\<open>best_of c M r\<close>: the result \<open>r\<close> is the answer of a constrained-max-extract on the
  contents \<open>M\<close> with capacity \<open>c\<close>.  A run is a sequence of calls on one store, one per
  capacity, with the results in order.\<close>

definition best_of :: "int \<Rightarrow> Treasure multiset \<Rightarrow> Treasure option \<Rightarrow> bool" where
  "best_of c M r \<longleftrightarrow>
     (case r of
        None \<Rightarrow> (\<forall>y \<in># M. \<not> weight y \<le> c)
      | Some x \<Rightarrow> x \<in># M \<and> weight x \<le> c \<and>
          (\<forall>y \<in># M. weight y \<le> c \<longrightarrow> value_to_weight_ratio y \<le> value_to_weight_ratio x))"

fun spooky_run :: "(rat, Treasure) tree \<Rightarrow> int list \<Rightarrow> error + Treasure option list" where
  "spooky_run t [] = Inr []"
| "spooky_run t (c # cs) =
     (case spooky_get_optimal_treasure t c of
        Inl e \<Rightarrow> Inl e
      | Inr (r, t') \<Rightarrow>
          (case spooky_run t' cs of Inl e \<Rightarrow> Inl e | Inr rs \<Rightarrow> Inr (r # rs)))"

fun mystical_run :: "MysticalHollow \<Rightarrow> int list \<Rightarrow> error + Treasure option list" where
  "mystical_run hollow [] = Inr []"
| "mystical_run hollow (c # cs) =
     (case mystical_get_optimal_treasure hollow c of
        Inl e \<Rightarrow> Inl e
      | Inr (r, hollow') \<Rightarrow>
          (case mystical_run hollow' cs of Inl e \<Rightarrow> Inl e | Inr rs \<Rightarrow> Inr (r # rs)))"

section \<open>The maze\<close>

text \<open>
  Modelled from the spec: the enumeration \<open>Tiles\<close> (module \<open>config\<close>) is not part of the
  sources.  \<open>validate_maze_file\<close> names the start marker \<open>P\<close> and the exit marker \<open>E\<close>; the
  wall marker is taken to be \<open>#\<close>.  Only their being different matters below.
\<close>

definition WALL :: string where "WALL = ''#''"

definition EXIT :: string where "EXIT = ''E''"

definition START_POSITION :: string where "START_POSITION = ''P''"

record Position =
  row :: int
  col :: int

text \<open>A tile is a string or a hollow.  A hollow is an object that several cells may share,
  so a tile holds its address and the objects live in a store.\<close>

datatype Tile = Str string | HollowTile nat

datatype Hollow = Spooky "(rat, Treasure) tree" | Mystical MysticalHollow

type_synonym hollows = "nat \<Rightarrow> Hollow"

record MazeCell =
  tile :: Tile
  position :: Position
  visited :: bool

text \<open>\<open>take_treasures\<close> is annotated to take cells, but Python does not check that: what it
  is given is a list of objects, and reading \<open>.tile\<close> of a \<open>Position\<close> raises.\<close>

datatype pyobj = PositionObj Position | MazeCellObj MazeCell

fun tile_of :: "pyobj \<Rightarrow> error + Tile" where
  "tile_of (MazeCellObj cell) = Inr (tile cell)"
| "tile_of (PositionObj p) = Inl AttributeError"

text \<open>\<open>isinstance(cell.tile, SpookyHollow)\<close> and \<open>isinstance(cell.tile, MysticalHollow)\<close>.\<close>

fun isinstance_SpookyHollow :: "hollows \<Rightarrow> Tile \<Rightarrow> bool" where
  "isinstance_SpookyHollow hs (HollowTile a) = (case hs a of Spooky t \<Rightarrow> True | Mystical m \<Rightarrow> False)"
| "isinstance_SpookyHollow hs (Str s) = False"

fun isinstance_MysticalHollow :: "hollows \<Rightarrow> Tile \<Rightarrow> bool" where
  "isinstance_MysticalHollow hs (HollowTile a) = (case hs a of Spooky t \<Rightarrow> False | Mystical m \<Rightarrow> True)"
| "isinstance_MysticalHollow hs (Str s) = False"

text \<open>\<open>hollow.get_optimal_treasure(backpack_capacity)\<close> on the object at an address: the
  method of the object's class runs and the object is updated in the store.\<close>

definition get_optimal_treasure :: "hollows \<Rightarrow> nat \<Rightarrow> int \<Rightarrow> error + (Treasure option \<times> hollows)" where
  "get_optimal_treasure hs a backpack_capacity =
     (case hs a of
        Spooky t \<Rightarrow>
          (case spooky_get_optimal_treasure t backpack_capacity of
             Inl e \<Rightarrow> Inl e
           | Inr (r, t') \<Rightarrow> Inr (r, hs(a := Spooky t')))
      | Mystical m \<Rightarrow>
          (case mystical_get_optimal_treasure m backpack_capacity of
             Inl e \<Rightarrow> Inl e
           | Inr (r, m') \<Rightarrow> Inr (r, hs(a := Mystical m'))))"

text \<open>One of the two \<open>if isinstance\<close> blocks of the loop body, run when its test holds:
  the state is the store, the remaining capacity and the treasures collected.\<close>

definition take_from ::
  "Tile \<Rightarrow> hollows \<times> int \<times> Treasure list \<Rightarrow> error + (hollows \<times> int \<times> Treasure list)" where
  "take_from cell_tile st =
     (case st of (hs, backpack_capacity, treasures_collected) \<Rightarrow>
        (case cell_tile of
           Str s \<Rightarrow> Inr st
         | HollowTile a \<Rightarrow>
             (case get_optimal_treasure hs a backpack_capacity of
                Inl e \<Rightarrow> Inl e
              | Inr (None, hs') \<Rightarrow> Inr (hs', backpack_capacity, treasures_collected)
              | Inr (Some treasure, hs') \<Rightarrow>
                  Inr (hs', backpack_capacity - weight treasure,
                       treasures_collected @ [treasure]))))"

text \<open>The \<open>for\<close> loop of \<open>take_treasures\<close>.\<close>

fun take_treasures_loop ::
  "pyobj list \<Rightarrow> hollows \<times> int \<times> Treasure list \<Rightarrow> error + (hollows \<times> int \<times> Treasure list)" where
  "take_treasures_loop [] st = Inr st"
| "take_treasures_loop (cell # path) st =
     (case tile_of cell of
        Inl e \<Rightarrow> Inl e
      | Inr cell_tile \<Rightarrow>
          (case (if isinstance_SpookyHollow (fst st) cell_tile then take_from cell_tile st
                 else Inr st) of
             Inl e \<Rightarrow> Inl e
           | Inr st1 \<Rightarrow>
               (case (if isinstance_MysticalHollow (fst st1) cell_tile then take_from cell_tile st1
                      else Inr st1) of
                  Inl e \<Rightarrow> Inl e
                | Inr st2 \<Rightarrow> take_treasures_loop path st2)))"

text \<open>\<open>Maze.take_treasures\<close>: the result and the store of hollows afterwards.\<close>

definition take_treasures ::
  "hollows \<Rightarrow> pyobj list \<Rightarrow> int \<Rightarrow> error + (Treasure list option \<times> hollows)" where
  "take_treasures hs path backpack_capacity =
     (case take_treasures_loop path (hs, backpack_capacity, []) of
        Inl e \<Rightarrow> Inl e
      | Inr (hs', remaining, treasures_collected) \<Rightarrow>
          Inr (if length treasures_collected = 0 then None else Some treasures_collected, hs'))"

section \<open>The harvest as the specification words it\<close>

text \<open>One step of the left fold: at a cell that carries a hollow, that hollow's extraction
  is called with the remaining capacity; a returned treasure is appended and its weight
  subtracted.  A raise ends the fold.\<close>

definition harvest_step ::
  "error + (hollows \<times> int \<times> Treasure list) \<Rightarrow> MazeCell \<Rightarrow>
     error + (hollows \<times> int \<times> Treasure list)" where
  "harvest_step acc cell =
     (case acc of
        Inl e \<Rightarrow> Inl e
      | Inr (hs, remaining, collected) \<Rightarrow>
          (case tile cell of
             Str s \<Rightarrow> Inr (hs, remaining, collected)
           | HollowTile a \<Rightarrow>
               (case get_optimal_treasure hs a remaining of
                  Inl e \<Rightarrow> Inl e
                | Inr (None, hs') \<Rightarrow> Inr (hs', remaining, collected)
                | Inr (Some treasure, hs') \<Rightarrow>
                    Inr (hs', remaining - weight treasure, collected @ [treasure]))))"

definition harvest :: "hollows \<Rightarrow> MazeCell list \<Rightarrow> int \<Rightarrow> error + (Treasure list option \<times> hollows)" where
  "harvest hs path capacity =
     (case foldl harvest_step (Inr (hs, capacity, [])) path of
        Inl e \<Rightarrow> Inl e
      | Inr (hs', remaining, collected) \<Rightarrow>
          Inr (if collected = [] then None else Some collected, hs'))"

text \<open>The grid is \<open>rows\<close> lists of \<open>cols\<close> cells, as \<open>_create_grid\<close> builds it and as it stays;
  it is held as one cell for every pair of list indices.\<close>

record Maze =
  start_position :: Position
  end_positions :: "Position list"
  rows :: int
  cols :: int
  grid :: "nat \<times> nat \<Rightarrow> MazeCell"

text \<open>The indices that \<open>self.grid[r][c]\<close> reads; \<open>None\<close> where Python raises.\<close>

definition grid_index :: "Maze \<Rightarrow> int \<Rightarrow> int \<Rightarrow> (nat \<times> nat) option" where
  "grid_index self r c =
     (case py_index (nat (rows self)) r of
        None \<Rightarrow> None
      | Some i \<Rightarrow> (case py_index (nat (cols self)) c of None \<Rightarrow> None | Some j \<Rightarrow> Some (i, j)))"

definition is_valid_position :: "Maze \<Rightarrow> Position \<Rightarrow> bool" where
  "is_valid_position self pos =
     (if row pos < 0 \<or> row pos \<ge> rows self \<or> col pos < 0 \<or> col pos \<ge> cols self then False
      else
        let maze_position = grid self (nat (row pos), nat (col pos)) in
        if tile maze_position = Str WALL \<or> visited maze_position then False
        else True)"

definition exit_postions :: "(int \<times> int) list" where
  "exit_postions = [(-1, 0), (1, 0), (0, -1), (0, 1)]"

definition get_available_positions :: "Maze \<Rightarrow> Position \<Rightarrow> Position list" where
  "get_available_positions self current_position =
     filter (is_valid_position self)
       (map (\<lambda>(alter_row, alter_column).
               \<lparr>row = row current_position + alter_row, col = col current_position + alter_column\<rparr>)
            exit_postions)"

text \<open>The state of a search: the maze (its cells carry the \<open>visited\<close> flags) and
  \<open>path_found\<close>.\<close>

function depth_first_search ::
    "Maze \<Rightarrow> Position list \<Rightarrow> Position \<Rightarrow> error + (bool \<times> Maze \<times> Position list)"
  and search_each ::
    "Maze \<Rightarrow> Position list \<Rightarrow> Position list \<Rightarrow> error + (bool \<times> Maze \<times> Position list)" where
  "depth_first_search self path_found current_pos =
     (case grid_index self (row current_pos) (col current_pos) of
        None \<Rightarrow> Inl IndexError
      | Some idx \<Rightarrow>
          let maze_position = grid self idx;
              self1 = self\<lparr>grid := (grid self)(idx := maze_position\<lparr>visited := True\<rparr>)\<rparr>;
              path1 = path_found @ [current_pos]
          in if tile maze_position = Str EXIT then Inr (True, self1, path1)
             else (case search_each self1 path1 (get_available_positions self1 current_pos) of
                     Inl e \<Rightarrow> Inl e
                   | Inr (True, self2, path2) \<Rightarrow> Inr (True, self2, path2)
                   | Inr (False, self2, path2) \<Rightarrow>
                       if path2 = [] then Inl IndexError
                       else Inr (False, self2, butlast path2)))"
| "search_each self path_found [] = Inr (False, self, path_found)"
| "search_each self path_found (possible_positions # rest) =
     (case depth_first_search self path_found possible_positions of
        Inl e \<Rightarrow> Inl e
      | Inr (True, self1, path1) \<Rightarrow> Inr (True, self1, path1)
      | Inr (False, self1, path1) \<Rightarrow> search_each self1 path1 rest)"
  by pat_completeness auto

text \<open>What a search may change in a maze: nothing but \<open>visited\<close> flags, from false to true.\<close>

definition extends :: "Maze \<Rightarrow> Maze \<Rightarrow> bool" where
  "extends self s \<longleftrightarrow>
     rows s = rows self \<and> cols s = cols self \<and>
     (\<forall>idx. tile (grid s idx) = tile (grid self idx)) \<and>
     (\<forall>idx. visited (grid self idx) \<longrightarrow> visited (grid s idx))"

definition unvisited :: "Maze \<Rightarrow> (nat \<times> nat) set" where
  "unvisited self =
     {idx. fst idx < nat (rows self) \<and> snd idx < nat (cols self) \<and> \<not> visited (grid self idx)}"

definition mark :: "Maze \<Rightarrow> nat \<times> nat \<Rightarrow> Maze" where
  "mark self idx = self\<lparr>grid := (grid self)(idx := (grid self idx)\<lparr>visited := True\<rparr>)\<rparr>"

lemma extends_refl: "extends self self"
  by (simp add: extends_def)

lemma extends_trans: "extends a b \<Longrightarrow> extends b c \<Longrightarrow> extends a c"
  by (simp add: extends_def)

lemma extends_mark: "extends self (mark self idx)"
  by (simp add: extends_def mark_def)

lemma visited_mark: "visited (grid (mark self idx) idx)"
  by (simp add: mark_def)

lemma search_extends_dom:
  "depth_first_search_search_each_dom (Inl (self, path_found, current_pos)) \<Longrightarrow>
     depth_first_search self path_found current_pos = Inr (b, s, p) \<Longrightarrow>
     extends self s \<and>
     (\<forall>idx. grid_index self (row current_pos) (col current_pos) = Some idx \<longrightarrow>
            visited (grid s idx))"
  "depth_first_search_search_each_dom (Inr (self, path_found, positions)) \<Longrightarrow>
     search_each self path_found positions = Inr (b, s, p) \<Longrightarrow> extends self s"
proof (induction self path_found current_pos and self path_found positions
    arbitrary: b s p and b s p rule: depth_first_search_search_each.pinduct)
  case (1 self path_found current_pos)
  from "1.prems" obtain idx where idx: "grid_index self (row current_pos) (col current_pos) = Some idx"
    by (auto simp: depth_first_search.psimps[OF "1.hyps"] split: option.splits)
  define self1 where "self1 = mark self idx"
  show ?case
  proof (cases "tile (grid self idx) = Str EXIT")
    case True
    then have "s = self1" using "1.prems" idx
      by (simp add: depth_first_search.psimps[OF "1.hyps"] self1_def mark_def Let_def)
    then show ?thesis using idx by (simp add: self1_def extends_mark visited_mark)
  next
    case False
    from "1.prems" idx False obtain b' p' where
      se: "search_each self1 (path_found @ [current_pos])
            (get_available_positions self1 current_pos) = Inr (b', s, p')"
      by (auto simp: depth_first_search.psimps[OF "1.hyps"] self1_def mark_def Let_def
          split: sum.splits bool.splits if_splits)
    have e1: "extends self1 s"
      using "1.IH"[OF idx refl _ refl False se[unfolded self1_def mark_def]]
      by (simp add: self1_def mark_def)
    have "extends self s"
      using extends_trans[OF extends_mark e1[unfolded self1_def]] .
    moreover have "visited (grid s idx)"
      using e1 visited_mark[of self idx] unfolding extends_def self1_def by blast
    ultimately show ?thesis using idx by simp
  qed
next
  case (2 self path_found)
  then show ?case by (simp add: search_each.psimps(1) extends_refl)
next
  case (3 self path_found possible_positions rest)
  show ?case
  proof (cases "depth_first_search self path_found possible_positions")
    case (Inl e)
    then show ?thesis using "3.prems" by (simp add: search_each.psimps(2)[OF "3.hyps"])
  next
    case (Inr res)
    obtain b1 s1 p1 where res: "res = (b1, s1, p1)" by (cases res)
    have e1: "extends self s1" using "3.IH"(1)[OF Inr[unfolded res]] by simp
    show ?thesis
    proof (cases b1)
      case True
      then show ?thesis using "3.prems" Inr res e1
        by (simp add: search_each.psimps(2)[OF "3.hyps"])
    next
      case False
      then have "search_each s1 p1 rest = Inr (b, s, p)"
        using "3.prems" Inr res by (simp add: search_each.psimps(2)[OF "3.hyps"])
      from "3.IH"(2)[OF Inr[unfolded res] refl False[THEN eq_False[THEN iffD2]] refl this]
      show ?thesis using e1 extends_trans by blast
    qed
  qed
qed

definition search_measure ::
  "(Maze \<times> Position list \<times> Position) + (Maze \<times> Position list \<times> Position list)
     \<Rightarrow> nat \<times> nat \<times> nat" where
  "search_measure x =
     (case x of
        Inl (self, path_found, pos) \<Rightarrow>
          (card (unvisited self), if is_valid_position self pos then 0 else 2, 0)
      | Inr (self, path_found, positions) \<Rightarrow>
          (card (unvisited self),
           if list_all (is_valid_position self) positions then 1 else 3,
           length positions))"

lemma finite_unvisited: "finite (unvisited self)"
proof -
  have "unvisited self \<subseteq> {..< nat (rows self)} \<times> {..< nat (cols self)}"
    by (auto simp: unvisited_def)
  then show ?thesis by (rule finite_subset) simp
qed

lemma unvisited_mark: "unvisited (mark self idx) = unvisited self - {idx}"
  by (auto simp: unvisited_def mark_def)

lemma unvisited_extends: "extends self s \<Longrightarrow> unvisited s \<subseteq> unvisited self"
  by (auto simp: unvisited_def extends_def)

lemma valid_index:
  assumes "is_valid_position self pos"
  shows "grid_index self (row pos) (col pos) = Some (nat (row pos), nat (col pos))"
    and "(nat (row pos), nat (col pos)) \<in> unvisited self"
  using assms
  by (auto simp: is_valid_position_def grid_index_def py_index_def unvisited_def Let_def
      split: if_splits)

lemma card_unvisited_mark: "card (unvisited (mark self idx)) \<le> card (unvisited self)"
  unfolding unvisited_mark by (rule card_mono[OF finite_unvisited]) auto

lemma card_unvisited_mark_less:
  "idx \<in> unvisited self \<Longrightarrow> card (unvisited (mark self idx)) < card (unvisited self)"
  unfolding unvisited_mark by (rule psubset_card_mono[OF finite_unvisited]) auto

lemma available_valid:
  "list_all (is_valid_position self) (get_available_positions self pos)"
  by (simp add: get_available_positions_def list_all_iff)

termination depth_first_search
proof (relation "inv_image (less_than <*lex*> less_than <*lex*> less_than) search_measure",
    goal_cases)
  case 1
  show ?case by (intro wf_inv_image wf_lex_prod wf_less_than)
next
  case (2 self path_found current_pos idx maze_position self1 path1)
  have s1: "self1 = mark self idx" using 2 by (simp add: mark_def)
  show ?case
  proof (cases "is_valid_position self current_pos")
    case True
    from valid_index[OF True] 2 have "idx \<in> unvisited self" by simp
    from card_unvisited_mark_less[OF this] show ?thesis
      by (simp add: search_measure_def s1)
  next
    case False
    then show ?thesis
      using card_unvisited_mark[of self idx] available_valid[of self1 current_pos]
      by (auto simp: search_measure_def s1)
  qed
next
  case (3 self path_found possible_positions rest)
  show ?case by (auto simp: search_measure_def)
next
  case (4 self path_found possible_positions rest res b yy s1 p1)
  then have d: "depth_first_search self path_found possible_positions = Inr (False, s1, p1)"
    by simp
  from search_extends_dom(1)[OF 4(5) d]
  have e: "extends self s1"
    and v: "\<And>idx. grid_index self (row possible_positions) (col possible_positions) = Some idx
        \<Longrightarrow> visited (grid s1 idx)" by auto
  have le: "card (unvisited s1) \<le> card (unvisited self)"
    by (rule card_mono[OF finite_unvisited unvisited_extends[OF e]])
  show ?case
  proof (cases "is_valid_position self possible_positions")
    case True
    note vi = valid_index[OF True]
    have "(nat (row possible_positions), nat (col possible_positions)) \<notin> unvisited s1"
      using v[OF vi(1)] by (simp add: unvisited_def)
    then have "unvisited s1 \<subset> unvisited self" using vi(2) unvisited_extends[OF e] by auto
    from psubset_card_mono[OF finite_unvisited this] show ?thesis
      by (simp add: search_measure_def)
  next
    case False
    then show ?thesis using le by (auto simp: search_measure_def)
  qed
qed

declare depth_first_search.simps [simp del]

text \<open>\<open>Maze.find_way_out\<close>: the search from the start position with an empty path; the
  path when the search succeeds, \<open>None\<close> otherwise, and the maze with its flags.\<close>

definition find_way_out :: "Maze \<Rightarrow> error + (Position list option \<times> Maze)" where
  "find_way_out self =
     (case depth_first_search self [] (start_position self) of
        Inl e \<Rightarrow> Inl e
      | Inr (True, self', path_found) \<Rightarrow> Inr (Some path_found, self')
      | Inr (False, self', path_found) \<Rightarrow> Inr (None, self'))"

text \<open>The vocabulary of the statements about the search.  A position is in bounds when it
  names a cell of the grid without wrapping; \<open>cell_at\<close> is that cell; a cell is passable
  when it is in bounds and not a wall, an exit when its tile is \<open>E\<close>; two positions are
  adjacent when they differ by one step up, down, left or right.\<close>

definition in_bounds :: "Maze \<Rightarrow> Position \<Rightarrow> bool" where
  "in_bounds self p \<longleftrightarrow> 0 \<le> row p \<and> row p < rows self \<and> 0 \<le> col p \<and> col p < cols self"

definition cell_at :: "Maze \<Rightarrow> Position \<Rightarrow> MazeCell" where
  "cell_at self p = grid self (nat (row p), nat (col p))"

definition passable :: "Maze \<Rightarrow> Position \<Rightarrow> bool" where
  "passable self p \<longleftrightarrow> in_bounds self p \<and> tile (cell_at self p) \<noteq> Str WALL"

definition is_exit :: "Maze \<Rightarrow> Position \<Rightarrow> bool" where
  "is_exit self p \<longleftrightarrow> in_bounds self p \<and> tile (cell_at self p) = Str EXIT"

definition adjacent :: "Position \<Rightarrow> Position \<Rightarrow> bool" where
  "adjacent p q \<longleftrightarrow>
     (row q = row p \<and> \<bar>col q - col p\<bar> = 1) \<or> (col q = col p \<and> \<bar>row q - row p\<bar> = 1)"

text \<open>A position is seen when its cell is flagged; closed when all its passable neighbours
  are seen; settled when it is closed and not an exit.  A route is a non-empty list of
  passable positions from the start position to an exit, each adjacent to the next.  A
  maze is fresh when its start cell is passable and no cell is flagged.\<close>

definition seen :: "Maze \<Rightarrow> Position \<Rightarrow> bool" where
  "seen self p \<longleftrightarrow> visited (cell_at self p)"

definition closed :: "Maze \<Rightarrow> Position \<Rightarrow> bool" where
  "closed self v \<longleftrightarrow> (\<forall>q. adjacent v q \<and> passable self q \<longrightarrow> seen self q)"

definition settled :: "Maze \<Rightarrow> Position \<Rightarrow> bool" where
  "settled self v \<longleftrightarrow> closed self v \<and> \<not> is_exit self v"

definition route :: "Maze \<Rightarrow> Position list \<Rightarrow> bool" where
  "route self ps \<longleftrightarrow>
     ps \<noteq> [] \<and> hd ps = start_position self \<and> is_exit self (last ps) \<and>
     list_all (passable self) ps \<and> successively adjacent ps"

definition fresh_maze :: "Maze \<Rightarrow> bool" where
  "fresh_maze self \<longleftrightarrow>
     passable self (start_position self) \<and> (\<forall>idx. \<not> visited (grid self idx))"

text \<open>What a successful and a failed search of the positions \<open>qs\<close> leave behind, what the
  search needs of \<open>qs\<close> beforehand, and the two put together for a result of the search.\<close>

definition found_post :: "Maze \<Rightarrow> Position list \<Rightarrow> Position list \<Rightarrow> Position list \<Rightarrow> bool" where
  "found_post self path qs p \<longleftrightarrow>
     (\<exists>q new. p = path @ q # new \<and> q \<in> set qs \<and> successively adjacent (q # new) \<and>
        (\<forall>x \<in> set (q # new). passable self x \<and> \<not> seen self x) \<and>
        distinct (q # new) \<and> is_exit self (last (q # new)))"

definition failed_post :: "Maze \<Rightarrow> Position list \<Rightarrow> Maze \<Rightarrow> bool" where
  "failed_post self qs s \<longleftrightarrow>
     (\<forall>q \<in> set qs. seen s q) \<and>
     (\<forall>v. in_bounds self v \<and> seen s v \<and> (\<not> seen self v \<or> v \<in> set qs) \<longrightarrow> settled s v)"

definition search_pre :: "Maze \<Rightarrow> Position list \<Rightarrow> bool" where
  "search_pre self qs \<longleftrightarrow> (\<forall>q \<in> set qs. passable self q \<and> (seen self q \<longrightarrow> settled self q))"

definition search_ok ::
  "error + (bool \<times> Maze \<times> Position list) \<Rightarrow> Maze \<Rightarrow> Position list \<Rightarrow> Position list \<Rightarrow> bool" where
  "search_ok res self path qs \<longleftrightarrow>
     (case res of
        Inl e \<Rightarrow> False
      | Inr (b, s, p) \<Rightarrow>
          extends self s \<and>
          (if b then found_post self path qs p else p = path \<and> failed_post self qs s))"

text \<open>\<open>Maze.__init__\<close> with \<open>_create_grid\<close>: a grid of blank cells, then the start cell, the
  walls, the hollows and the exits written in that order, each through
  \<open>grid[p.row][p.col]\<close>, which raises out of range.\<close>

definition blank_cell :: "nat \<times> nat \<Rightarrow> MazeCell" where
  "blank_cell idx =
     \<lparr>tile = Str '' '', position = \<lparr>row = int (fst idx), col = int (snd idx)\<rparr>, visited = False\<rparr>"

definition set_cell :: "Maze \<Rightarrow> Position \<Rightarrow> (MazeCell \<Rightarrow> MazeCell) \<Rightarrow> error + Maze" where
  "set_cell self p f =
     (case grid_index self (row p) (col p) of
        None \<Rightarrow> Inl IndexError
      | Some idx \<Rightarrow> Inr (self\<lparr>grid := (grid self)(idx := f (grid self idx))\<rparr>))"

fun set_tiles :: "Maze \<Rightarrow> (Position \<times> Tile) list \<Rightarrow> error + Maze" where
  "set_tiles self [] = Inr self"
| "set_tiles self ((p, t) # rest) =
     (case set_cell self p (\<lambda>cell. cell\<lparr>tile := t\<rparr>) of
        Inl e \<Rightarrow> Inl e
      | Inr self' \<Rightarrow> set_tiles self' rest)"

definition Maze_init ::
  "Position \<Rightarrow> Position list \<Rightarrow> Position list \<Rightarrow> (nat \<times> Position) list \<Rightarrow> int \<Rightarrow> int
     \<Rightarrow> error + Maze" where
  "Maze_init start ends walls hollow_list r c =
     (let self0 = \<lparr>start_position = start, end_positions = ends, rows = r, cols = c,
                    grid = blank_cell\<rparr>
      in case set_cell self0 start
                (\<lambda>cell. \<lparr>tile = Str START_POSITION, position = start, visited = False\<rparr>) of
           Inl e \<Rightarrow> Inl e
         | Inr self1 \<Rightarrow>
             (case set_tiles self1 (map (\<lambda>wall. (wall, Str WALL)) walls) of
                Inl e \<Rightarrow> Inl e
              | Inr self2 \<Rightarrow>
                  (case set_tiles self2 (map (\<lambda>(hollow, pos). (pos, HollowTile hollow)) hollow_list) of
                     Inl e \<Rightarrow> Inl e
                   | Inr self3 \<Rightarrow>
                       set_tiles self3 (map (\<lambda>end_position. (end_position, Str EXIT)) ends))))"

text \<open>The result of \<open>find_way_out\<close> alone, and the mazes of the examples: two rooms by two
  with a wall and a hollow, three by three with a hollow in the middle, and a corridor
  whose exit is behind a wall.\<close>

definition way_out :: "Maze \<Rightarrow> error + Position list option" where
  "way_out self = map_sum id fst (find_way_out self)"

definition pos :: "int \<Rightarrow> int \<Rightarrow> Position" where
  "pos r c = \<lparr>row = r, col = c\<rparr>"

definition small_maze :: Maze where
  "small_maze =
     \<lparr>start_position = pos 0 0, end_positions = [pos 1 1], rows = 2, cols = 2,
      grid = blank_cell
        ((0, 0) := \<lparr>tile = Str START_POSITION, position = pos 0 0, visited = False\<rparr>,
         (1, 0) := \<lparr>tile = Str WALL, position = pos 1 0, visited = False\<rparr>,
         (0, 1) := \<lparr>tile = HollowTile 0, position = pos 0 1, visited = False\<rparr>,
         (1, 1) := \<lparr>tile = Str EXIT, position = pos 1 1, visited = False\<rparr>)\<rparr>"

definition example_maze :: Maze where
  "example_maze =
     \<lparr>start_position = pos 0 0, end_positions = [pos 2 2], rows = 3, cols = 3,
      grid = blank_cell
        ((0, 0) := \<lparr>tile = Str START_POSITION, position = pos 0 0, visited = False\<rparr>,
         (1, 1) := \<lparr>tile = HollowTile 0, position = pos 1 1, visited = False\<rparr>,
         (2, 2) := \<lparr>tile = Str EXIT, position = pos 2 2, visited = False\<rparr>)\<rparr>"

definition example_hollows :: hollows where
  "example_hollows = (\<lambda>a. Spooky (Node Leaf 1 rock (Node Leaf 5 coin Leaf)))"

definition walled_maze :: Maze where
  "walled_maze =
     \<lparr>start_position = pos 0 0, end_positions = [pos 0 2], rows = 1, cols = 3,
      grid = blank_cell
        ((0, 0) := \<lparr>tile = Str START_POSITION, position = pos 0 0, visited = False\<rparr>,
         (0, 1) := \<lparr>tile = Str WALL, position = pos 0 1, visited = False\<rparr>,
         (0, 2) := \<lparr>tile = Str EXIT, position = pos 0 2, visited = False\<rparr>)\<rparr>"

text \<open>What the constructor fixes once and for all.\<close>

definition same_frame :: "Maze \<Rightarrow> Maze \<Rightarrow> bool" where
  "same_frame a b \<longleftrightarrow>
     start_position b = start_position a \<and> end_positions b = end_positions a \<and>
     rows b = rows a \<and> cols b = cols a"

section \<open>Facts about the stack\<close>

lemma pop_all_rev: "n = length stack \<Longrightarrow> pop_all n stack acc = acc @ stack"
  by (induction n stack acc rule: pop_all.induct) auto

lemma foldl_push: "foldl push stack xs = rev xs @ stack"
  by (induction xs arbitrary: stack) (auto simp: push_def)

lemma descending_nodes: "pop_all (length (foldl push [] xs)) (foldl push [] xs) [] = rev xs"
  by (simp add: pop_all_rev foldl_push)

section \<open>Facts about the tree\<close>

lemma inorder_Nil_iff [simp]: "inorder t = [] \<longleftrightarrow> t = Leaf"
  by (cases t) auto

lemma is_empty_iff [simp]: "is_empty t \<longleftrightarrow> t = Leaf"
  by (cases t) auto

lemma get_maximal_last: "t \<noteq> Leaf \<Longrightarrow> get_maximal t = Some (last (inorder t))"
  by (induction t) auto

lemma get_minimal_hd: "t \<noteq> Leaf \<Longrightarrow> get_minimal t = Some (hd (inorder t))"
  by (induction t) auto

section \<open>Facts about the bulk build\<close>

declare midpoint_order.simps [simp del] balanced.simps [simp del]
  build_balanced_tree_aux.simps [simp del]

lemma insert_aux_depth: "insert_aux tb t k i d = insert_aux tb t k i d'"
  by (induction t arbitrary: d d') (auto split: tie.splits)

lemma py_nth_in_range: "0 \<le> i \<Longrightarrow> i < int (length xs) \<Longrightarrow> py_nth xs i = Inr (xs ! nat i)"
  by (simp add: py_nth_def py_index_def)

lemma slice_mid:
  assumes "0 \<le> b" "b \<le> e" "e < int (length es)"
  defines "sl \<equiv> take (nat (e - b + 1)) (drop (nat b) es)"
  defines "m \<equiv> (b + e) div 2"
  shows "sl \<noteq> []" "(length sl - 1) div 2 = nat (m - b)"
    "sl ! nat (m - b) = es ! nat m"
    "take (nat (m - b)) sl = take (nat ((m - 1) - b + 1)) (drop (nat b) es)"
    "drop (Suc (nat (m - b))) sl = take (nat (e - (m + 1) + 1)) (drop (nat (m + 1)) es)"
proof -
  have len: "length sl = nat (e - b + 1)" using assms by (simp add: sl_def)
  show "sl \<noteq> []" using len assms by auto
  have mb: "b \<le> m" "m \<le> e" using assms by (auto simp: m_def)
  show "(length sl - 1) div 2 = nat (m - b)"
    using assms mb len by (simp add: m_def nat_div_distrib nat_diff_distrib) 
  show "sl ! nat (m - b) = es ! nat m"
    using assms mb by (simp add: sl_def nat_add_distrib[symmetric])
  show "take (nat (m - b)) sl = take (nat ((m - 1) - b + 1)) (drop (nat b) es)"
    using assms mb by (simp add: sl_def min_def)
  show "drop (Suc (nat (m - b))) sl = take (nat (e - (m + 1) + 1)) (drop (nat (m + 1)) es)"
  proof -
    have 1: "Suc (nat (m - b)) + nat b = nat (m + 1)" using assms mb by linarith
    have 2: "nat (e - b + 1) - Suc (nat (m - b)) = nat (e - (m + 1) + 1)" using assms mb by linarith
    show ?thesis unfolding sl_def drop_take drop_drop 1 2 ..
  qed
qed


lemma build_aux_fold:
  "0 \<le> b \<Longrightarrow> e < int (length es) \<Longrightarrow>
   build_balanced_tree_aux tb es b e d t =
     Inr (foldl (ins tb) t (midpoint_order (take (nat (e - b + 1)) (drop (nat b) es))))"
proof (induction tb es b e d t rule: build_balanced_tree_aux.induct)
  case (1 tb es b e d t)
  show ?case
  proof (cases "b > e")
    case True
    then show ?thesis by (simp add: midpoint_order.simps build_balanced_tree_aux.simps)
  next
    case False
    define m where "m = (b + e) div 2"
    define sl where "sl = take (nat (e - b + 1)) (drop (nat b) es)"
    obtain k i where ki: "es ! nat m = (k, i)" by (cases "es ! nat m")
    define root1 where "root1 = ins tb t (k, i)"
    have be: "0 \<le> b" "b \<le> e" "e < int (length es)" using False 1 by auto
    have mb: "b \<le> m" "m \<le> e" using be by (auto simp: m_def)
    have nth: "py_nth es m = Inr (k, i)"
      using be mb ki by (simp add: py_nth_in_range)
    have r1: "(if t = Leaf then insert_aux tb t k i d else setitem tb t k i) = root1"
      by (auto simp: root1_def ins_def setitem_def intro: insert_aux_depth)
    note sm = slice_mid[OF be, folded m_def sl_def]
    have ih1: "build_balanced_tree_aux tb es b (m - 1) (d + 1) root1 =
        Inr (foldl (ins tb) root1 (midpoint_order (take (nat (m - b)) sl)))"
      using "1.IH"(1)[OF False m_def nth refl r1[symmetric]] be mb
      by (simp add: sm(4))
    define root2 where "root2 = foldl (ins tb) root1 (midpoint_order (take (nat (m - b)) sl))"
    have ih2: "build_balanced_tree_aux tb es (m + 1) e (d + 1) root2 =
        Inr (foldl (ins tb) root2 (midpoint_order (drop (Suc (nat (m - b))) sl)))"
      using "1.IH"(2)[OF False m_def nth refl r1[symmetric] ih1[folded root2_def]] be mb
      by (simp add: sm(5))
    have mo: "midpoint_order sl = (k, i) # midpoint_order (take (nat (m - b)) sl)
         @ midpoint_order (drop (Suc (nat (m - b))) sl)"
      using sm(1) sm(2) sm(3) ki by (subst midpoint_order.simps) (simp add: Let_def)
    have "build_balanced_tree_aux tb es b e d t =
        Inr (foldl (ins tb) root2 (midpoint_order (drop (Suc (nat (m - b))) sl)))"
      using False
      by (subst build_balanced_tree_aux.simps)
         (simp add: m_def[symmetric] Let_def nth r1 ih1[folded root2_def] ih2)
    also have "\<dots> = Inr (foldl (ins tb) t (midpoint_order sl))"
      by (simp add: mo root2_def root1_def)
    finally show ?thesis by (simp add: sl_def)
  qed
qed

lemma mset_inorder_insert_aux:
  "mset (inorder (insert_aux tb t k i d)) = add_mset (k, i) (mset (inorder t))"
  by (induction t arbitrary: d) (auto split: tie.splits)

lemma set_inorder_insert_aux:
  "set (inorder (insert_aux tb t k i d)) = insert (k, i) (set (inorder t))"
  using mset_inorder_insert_aux[of tb t k i d, THEN arg_cong, of set_mset] by simp

lemma sorted_inorder_Node:
  "sorted (map fst (inorder (Node l k i r))) \<longleftrightarrow>
     sorted (map fst (inorder l)) \<and> sorted (map fst (inorder r)) \<and>
     (\<forall>p \<in> set (inorder l). fst p \<le> k) \<and> (\<forall>p \<in> set (inorder r). k \<le> fst p)"
  by (force simp: sorted_append)

lemma sorted_inorder_insert_aux:
  "sorted (map fst (inorder t)) \<Longrightarrow> sorted (map fst (inorder (insert_aux tb t k i d)))"
proof (induction t arbitrary: d)
  case Leaf
  then show ?case by simp
next
  case (Node l k' i' r)
  from Node.prems have parts: "sorted (map fst (inorder l))" "sorted (map fst (inorder r))"
    "\<forall>p \<in> set (inorder l). fst p \<le> k'" "\<forall>p \<in> set (inorder r). k' \<le> fst p"
    unfolding sorted_inorder_Node by auto
  show ?case
    using parts Node.IH(1)[OF parts(1)] Node.IH(2)[OF parts(2)]
    by (auto simp: sorted_inorder_Node set_inorder_insert_aux simp del: inorder.simps
          split: tie.splits)
qed

lemma mset_foldl_ins: "mset (inorder (foldl (ins tb) t ps)) = mset ps + mset (inorder t)"
  by (induction ps arbitrary: t) (auto simp: ins_def mset_inorder_insert_aux)

lemma sorted_foldl_ins:
  "sorted (map fst (inorder t)) \<Longrightarrow> sorted (map fst (inorder (foldl (ins tb) t ps)))"
  by (induction ps arbitrary: t) (auto simp: ins_def sorted_inorder_insert_aux)

lemma mset_midpoint_order: "mset (midpoint_order xs) = mset xs"
proof (induction xs rule: midpoint_order.induct)
  case (1 xs)
  show ?case
  proof (cases "xs = []")
    case True
    then show ?thesis by (simp add: midpoint_order.simps)
  next
    case False
    define m where "m = (length xs - 1) div 2"
    have m: "m < length xs" using False by (simp add: m_def neq_Nil_conv less_Suc_eq_le) auto
    have "mset (midpoint_order xs) =
        add_mset (xs ! m) (mset (take m xs) + mset (drop (Suc m) xs))"
      using False "1.IH"[OF False m_def]
      by (subst midpoint_order.simps) (simp add: m_def Let_def)
    also have "\<dots> = mset (take m xs @ xs ! m # drop (Suc m) xs)" by simp
    also have "\<dots> = mset xs" using m by (simp only: id_take_nth_drop[symmetric])
    finally show ?thesis .
  qed
qed

lemma insert_aux_ins: "insert_aux tb t k i d = ins tb t (k, i)"
  by (simp add: ins_def insert_aux_depth[of tb t k i d 0])

lemma ins_Leaf: "ins tb Leaf p = Node Leaf (fst p) (snd p) Leaf"
  by (simp add: ins_def)

lemma ins_Node:
  "ins tb (Node l k' i' r) p =
     (if fst p < k' then Node (ins tb l p) k' i' r
      else if k' < fst p then Node l k' i' (ins tb r p)
      else (case tb of TieLeft \<Rightarrow> Node (ins tb l p) k' i' r
                     | TieRight \<Rightarrow> Node l k' i' (ins tb r p)))"
  by (auto simp: ins_def split: tie.splits intro: insert_aux_depth)

lemma foldl_ins_Node:
  "\<forall>p \<in> set ps. fst p \<noteq> k \<Longrightarrow>
   foldl (ins tb) (Node l k i r) ps =
     Node (foldl (ins tb) l (filter (\<lambda>p. fst p < k) ps)) k i
          (foldl (ins tb) r (filter (\<lambda>p. k < fst p) ps))"
proof (induction ps arbitrary: l r)
  case Nil
  then show ?case by simp
next
  case (Cons p ps)
  then show ?case
    by (cases "fst p < k") (auto simp: ins_Node)
qed

lemma mid_lt: "xs \<noteq> [] \<Longrightarrow> (length xs - 1) div 2 < length xs"
  by (cases xs) (auto simp: less_Suc_eq_le)

lemma inorder_balanced: "inorder (balanced xs) = xs"
proof (induction xs rule: balanced.induct)
  case (1 xs)
  show ?case
  proof (cases "xs = []")
    case True
    then show ?thesis by (simp add: balanced.simps)
  next
    case False
    define m where "m = (length xs - 1) div 2"
    have m: "m < length xs" unfolding m_def using False by (rule mid_lt)
    have "inorder (balanced xs) = take m xs @ xs ! m # drop (Suc m) xs"
      using False "1.IH"[OF False m_def]
      by (subst balanced.simps) (simp add: m_def Let_def)
    then show ?thesis using m by (simp only: id_take_nth_drop[symmetric])
  qed
qed

lemma foldl_ins_midpoint_order:
  "sorted_wrt (<) (map fst xs) \<Longrightarrow> foldl (ins tb) Leaf (midpoint_order xs) = balanced xs"
proof (induction xs rule: balanced.induct)
  case (1 xs)
  show ?case
  proof (cases "xs = []")
    case True
    then show ?thesis by (simp add: balanced.simps midpoint_order.simps)
  next
    case False
    define m where "m = (length xs - 1) div 2"
    define A where "A = take m xs"
    define B where "B = drop (Suc m) xs"
    define x where "x = xs ! m"
    have m: "m < length xs" unfolding m_def using False by (rule mid_lt)
    have xs: "xs = A @ x # B" unfolding A_def B_def x_def using m by (rule id_take_nth_drop)
    have srt: "sorted_wrt (<) (map fst A)" "sorted_wrt (<) (map fst B)"
      and lt: "\<forall>a \<in> set A. fst a < fst x" "\<forall>b \<in> set B. fst x < fst b"
      using "1.prems" unfolding xs by (auto simp: sorted_wrt_append)
    have ihA: "foldl (ins tb) Leaf (midpoint_order A) = balanced A"
      using "1.IH"(1)[OF False m_def] srt(1) by (simp add: A_def)
    have ihB: "foldl (ins tb) Leaf (midpoint_order B) = balanced B"
      using "1.IH"(2)[OF False m_def] srt(2) by (simp add: B_def)
    have setA: "set (midpoint_order A) = set A" and setB: "set (midpoint_order B) = set B"
      using mset_midpoint_order[of A, THEN arg_cong, of set_mset]
        mset_midpoint_order[of B, THEN arg_cong, of set_mset] by simp_all
    have fl: "filter (\<lambda>p. fst p < fst x) (midpoint_order A @ midpoint_order B) = midpoint_order A"
      using lt by (auto simp: setA setB filter_empty_conv dest: less_asym)+
    have fr: "filter (\<lambda>p. fst x < fst p) (midpoint_order A @ midpoint_order B) = midpoint_order B"
      using lt by (auto simp: setA setB filter_empty_conv dest: less_asym)+
    have ne: "\<forall>p \<in> set (midpoint_order A @ midpoint_order B). fst p \<noteq> fst x"
      using lt by (auto simp: setA setB)
    have "midpoint_order xs = x # midpoint_order A @ midpoint_order B"
      using False by (subst midpoint_order.simps) (simp add: m_def A_def B_def x_def Let_def)
    then have "foldl (ins tb) Leaf (midpoint_order xs) =
        foldl (ins tb) (Node Leaf (fst x) (snd x) Leaf) (midpoint_order A @ midpoint_order B)"
      by (simp add: ins_Leaf)
    also have "\<dots> = Node (balanced A) (fst x) (snd x) (balanced B)"
      unfolding foldl_ins_Node[OF ne] fl fr ihA ihB ..
    also have "\<dots> = balanced xs"
      using False by (subst (2) balanced.simps) (simp add: m_def A_def B_def x_def Let_def)
    finally show ?thesis .
  qed
qed

lemma height_balanced: "height (balanced xs) = 0 \<or> 2 ^ height (balanced xs) \<le> 2 * length xs"
proof (induction xs rule: balanced.induct)
  case (1 xs)
  show ?case
  proof (cases "xs = []")
    case True
    then show ?thesis by (simp add: balanced.simps)
  next
    case False
    define m where "m = (length xs - 1) div 2"
    define A where "A = take m xs"
    define B where "B = drop (Suc m) xs"
    have m: "m < length xs" unfolding m_def using False by (rule mid_lt)
    have lenA: "2 * length A + 1 \<le> length xs" using m by (simp add: A_def m_def min_def)
    have lenB: "2 * length B \<le> length xs" using m by (simp add: B_def m_def)
    have pos: "1 \<le> length xs" using False by (cases xs) auto
    have ihA: "height (balanced A) = 0 \<or> 2 ^ height (balanced A) \<le> 2 * length A"
      using "1.IH"(1)[OF False m_def] by (simp add: A_def)
    have ihB: "height (balanced B) = 0 \<or> 2 ^ height (balanced B) \<le> 2 * length B"
      using "1.IH"(2)[OF False m_def] by (simp add: B_def)
    have h: "height (balanced xs) = Suc (max (height (balanced A)) (height (balanced B)))"
      using False by (subst balanced.simps) (simp add: m_def A_def B_def Let_def)
    have a: "(2::nat) ^ height (balanced A) \<le> length xs" using ihA lenA pos by auto
    have b: "(2::nat) ^ height (balanced B) \<le> length xs" using ihB lenB pos by auto
    have "(2::nat) ^ max (height (balanced A)) (height (balanced B)) \<le> length xs"
      using a b by (simp add: max_def)
    then show ?thesis unfolding h by simp
  qed
qed

lemma height_balanced_log: "height (balanced xs) \<le> nat \<lceil>log 2 (real (length xs) + 1)\<rceil>"
proof -
  have "height (balanced xs) \<le> ceillog2 (length xs + 1)"
    using height_balanced[of xs] by (auto simp: ceillog2_ge_iff)
  then show ?thesis by (simp add: ceillog2_def add.commute)
qed

lemma BetterBST_fold:
  "BetterBST tb xs = Inr (foldl (ins tb) Leaf (midpoint_order (sort_key fst xs)))"
  by (simp add: BetterBST_def build_balanced_tree_def sort_elements_def mergesort_def
      build_aux_fold)

lemma strict_sorted_sort_key:
  assumes "distinct (map f xs)"
  shows "sorted_wrt (<) (map f (sort_key f xs))"
proof -
  have "mset (map f (sort_key f xs)) = mset (map f xs)" by simp
  then have "distinct (map f (sort_key f xs))"
    using assms by (metis mset_eq_imp_distinct_iff)
  then show ?thesis by (simp add: strict_sorted_iff)
qed

lemma BetterBST_balanced:
  "distinct (map fst xs) \<Longrightarrow> BetterBST tb xs = Inr (balanced (sort_key fst xs))"
  by (simp add: BetterBST_fold foldl_ins_midpoint_order strict_sorted_sort_key)

section \<open>Facts about deletion and the extraction from the tree\<close>

lemma filter_keys_id: "\<forall>p \<in> set xs. fst p \<noteq> k \<Longrightarrow> filter (\<lambda>p. fst p \<noteq> k) xs = xs"
  by (simp add: filter_id_conv)

lemma filter_hd_key:
  fixes xs :: "('k::linorder \<times> 'i) list"
  shows "sorted_wrt (<) (map fst xs) \<Longrightarrow> xs \<noteq> [] \<Longrightarrow> filter (\<lambda>p. fst p \<noteq> fst (hd xs)) xs = tl xs"
proof (cases xs)
  case Nil
  then show ?thesis by simp
next
  case (Cons x ys)
  assume "sorted_wrt (<) (map fst xs)"
  then have "\<forall>p \<in> set ys. fst x < fst p" using Cons by simp
  then have "\<forall>p \<in> set ys. fst p \<noteq> fst x" by fastforce
  then have "filter (\<lambda>p. fst p \<noteq> fst x) ys = ys" by (rule filter_keys_id)
  then show ?thesis using Cons by simp
qed

lemma strict_inorder_Node:
  fixes k :: "'k::linorder"
  shows "sorted_wrt (<) (map fst (inorder (Node l k i r))) \<longleftrightarrow>
     sorted_wrt (<) (map fst (inorder l)) \<and> sorted_wrt (<) (map fst (inorder r)) \<and>
     (\<forall>p \<in> set (inorder l). fst p < k) \<and> (\<forall>p \<in> set (inorder r). k < fst p)"
proof -
  have "(\<forall>x\<in>set (inorder l). fst x < k \<and> (\<forall>y\<in>set (inorder r). fst x < fst y)) \<and>
        (\<forall>y\<in>set (inorder r). k < fst y)
     \<longleftrightarrow> (\<forall>p \<in> set (inorder l). fst p < k) \<and> (\<forall>p \<in> set (inorder r). k < fst p)"
    by (meson less_trans)
  then show ?thesis by (auto simp: sorted_wrt_append)
qed

lemma delete_aux_inorder:
  "sorted_wrt (<) (map fst (inorder t)) \<Longrightarrow> k \<in> fst ` set (inorder t) \<Longrightarrow>
   \<exists>t'. delete_aux t k = Inr t' \<and> inorder t' = filter (\<lambda>p. fst p \<noteq> k) (inorder t)"
proof (induction t arbitrary: k)
  case Leaf
  then show ?case by simp
next
  case (Node l k' i' r)
  from Node.prems(1) have sl: "sorted_wrt (<) (map fst (inorder l))"
    and sr: "sorted_wrt (<) (map fst (inorder r))"
    and ll: "\<forall>p \<in> set (inorder l). fst p < k'" and rr: "\<forall>p \<in> set (inorder r). k' < fst p"
    unfolding strict_inorder_Node by auto
  consider (lt) "k < k'" | (gt) "k' < k" | (eq) "k = k'" by (metis less_linear)
  then show ?case
  proof cases
    case lt
    then have "k \<in> fst ` set (inorder l)" using Node.prems(2) rr by (auto dest: less_asym)
    from Node.IH(1)[OF sl this] obtain l' where
      l': "delete_aux l k = Inr l'" "inorder l' = filter (\<lambda>p. fst p \<noteq> k) (inorder l)" by blast
    have "filter (\<lambda>p. fst p \<noteq> k) (inorder r) = inorder r"
      using rr lt by (intro filter_keys_id) auto
    then show ?thesis using lt l' by auto
  next
    case gt
    then have "k \<in> fst ` set (inorder r)" using Node.prems(2) ll by (auto dest: less_asym)
    from Node.IH(2)[OF sr this] obtain r' where
      r': "delete_aux r k = Inr r'" "inorder r' = filter (\<lambda>p. fst p \<noteq> k) (inorder r)" by blast
    have "filter (\<lambda>p. fst p \<noteq> k) (inorder l) = inorder l"
      using ll gt by (intro filter_keys_id) auto
    then show ?thesis using gt r' by (auto dest: less_asym)
  next
    case eq
    have fl: "filter (\<lambda>p. fst p \<noteq> k) (inorder l) = inorder l"
      using ll eq by (intro filter_keys_id) auto
    have fr: "filter (\<lambda>p. fst p \<noteq> k) (inorder r) = inorder r"
      using rr eq by (intro filter_keys_id) auto
    show ?thesis
    proof (cases "l = Leaf \<or> r = Leaf")
      case True
      then show ?thesis using eq fl fr by auto
    next
      case False
      then have ne: "l \<noteq> Leaf" "r \<noteq> Leaf" by auto
      obtain sk si where s: "hd (inorder r) = (sk, si)" by (cases "hd (inorder r)")
      have gm: "get_minimal r = Some (sk, si)" using ne s by (simp add: get_minimal_hd)
      have "sk \<in> fst ` set (inorder r)" using ne s
        by (metis fst_conv hd_in_set image_eqI inorder_Nil_iff)
      from Node.IH(2)[OF sr this] obtain r' where
        r': "delete_aux r sk = Inr r'" "inorder r' = filter (\<lambda>p. fst p \<noteq> sk) (inorder r)" by blast
      have "inorder r' = tl (inorder r)"
        using filter_hd_key[OF sr] ne s r'(2) by simp
      then have "(sk, si) # inorder r' = inorder r" using ne s
        by (metis hd_Cons_tl inorder_Nil_iff)
      then show ?thesis using eq ne gm r' fl fr by auto
    qed
  qed
qed

lemma delete_aux_succeeds:
  "sorted (map fst (inorder t)) \<Longrightarrow> k \<in> fst ` set (inorder t) \<Longrightarrow>
   \<exists>t'. delete_aux t k = Inr t'"
proof (induction t arbitrary: k)
  case Leaf
  then show ?case by simp
next
  case (Node l k' i' r)
  from Node.prems(1) have sl: "sorted (map fst (inorder l))"
    and sr: "sorted (map fst (inorder r))"
    and ll: "\<forall>p \<in> set (inorder l). fst p \<le> k'" and rr: "\<forall>p \<in> set (inorder r). k' \<le> fst p"
    unfolding sorted_inorder_Node by auto
  consider (lt) "k < k'" | (gt) "k' < k" | (eq) "k = k'" by (metis less_linear)
  then show ?case
  proof cases
    case lt
    then have "k \<in> fst ` set (inorder l)" using Node.prems(2) rr by fastforce
    from Node.IH(1)[OF sl this] show ?thesis using lt by auto
  next
    case gt
    then have "k \<in> fst ` set (inorder r)" using Node.prems(2) ll by fastforce
    from Node.IH(2)[OF sr this] show ?thesis using gt by auto
  next
    case eq
    show ?thesis
    proof (cases "l = Leaf \<or> r = Leaf")
      case True
      then show ?thesis using eq by auto
    next
      case False
      then have ne: "l \<noteq> Leaf" "r \<noteq> Leaf" by auto
      obtain sk si where s: "hd (inorder r) = (sk, si)" by (cases "hd (inorder r)")
      have gm: "get_minimal r = Some (sk, si)" using ne s by (simp add: get_minimal_hd)
      have "sk \<in> fst ` set (inorder r)" using ne s
        by (metis fst_conv hd_in_set image_eqI inorder_Nil_iff)
      from Node.IH(2)[OF sr this] show ?thesis using eq ne gm by auto
    qed
  qed
qed

lemma spooky_as_find:
  "spooky_get_optimal_treasure t c =
     (case find (feasible c) (rev (inorder t)) of
        None \<Rightarrow> Inr (None, t)
      | Some p \<Rightarrow>
          (case delete_aux t (fst p) of Inl e \<Rightarrow> Inl e | Inr t' \<Rightarrow> Inr (Some (snd p), t')))"
proof (cases "t = Leaf")
  case True
  then show ?thesis by (simp add: spooky_get_optimal_treasure_def)
next
  case False
  then obtain ys where ys: "rev (inorder t) = last (inorder t) # ys"
    by (metis inorder_Nil_iff rev.simps(2) snoc_eq_iff_butlast append_butlast_last_id rev_eq_Cons_iff rev_rev_ident)
  have P: "(\<lambda>(ratio, treasure). weight treasure \<le> c) = feasible c"
    by (auto simp: feasible_def fun_eq_iff)
  show ?thesis
    using False
    by (auto simp: spooky_get_optimal_treasure_def get_maximal_last descending_nodes P ys
        feasible_def split: prod.splits option.splits sum.splits)
qed

lemma find_rev_sorted:
  fixes xs :: "('k::linorder \<times> 'i) list"
  assumes "sorted (map fst xs)" "find P (rev xs) = Some p"
  shows "p \<in> set xs \<and> P p \<and> (\<forall>q \<in> set xs. P q \<longrightarrow> fst q \<le> fst p)"
  using assms
proof (induction xs rule: rev_induct)
  case Nil
  then show ?case by simp
next
  case (snoc x xs)
  then show ?case by (auto simp: sorted_append split: if_splits)
qed

lemma find_rev_Some:
  "\<exists>x \<in> set xs. P x \<Longrightarrow> \<exists>p. find P (rev xs) = Some p"
  by (cases "find P (rev xs)") (auto simp: find_None_iff)

lemma spooky_inv_keys:
  assumes "spooky_inv t"
  shows "map fst (inorder t) = map value_to_weight_ratio (stored t)"
    and "distinct (map value_to_weight_ratio (stored t))"
    and "distinct (stored t)"
    and "sorted (map fst (inorder t))"
proof -
  show 1: "map fst (inorder t) = map value_to_weight_ratio (stored t)"
    using assms by (auto simp: spooky_inv_def stored_def list_all_iff)
  have "distinct (map fst (inorder t))" "sorted (map fst (inorder t))"
    using assms by (auto simp: spooky_inv_def strict_sorted_iff)
  then show "distinct (map value_to_weight_ratio (stored t))" "sorted (map fst (inorder t))"
    using 1 by auto
  then show "distinct (stored t)" by (auto simp: distinct_map)
qed

lemma mset_filter_neq:
  "distinct ys \<Longrightarrow> x \<in> set ys \<Longrightarrow> mset (filter (\<lambda>y. y \<noteq> x) ys) + {#x#} = mset ys"
proof (induction ys)
  case Nil
  then show ?case by simp
next
  case (Cons y ys)
  show ?case
  proof (cases "y = x")
    case True
    then have "x \<notin> set ys" using Cons.prems by simp
    then have "filter (\<lambda>y. y \<noteq> x) ys = ys" by (auto simp: filter_id_conv)
    then show ?thesis using True by simp
  next
    case False
    then show ?thesis using Cons by simp
  qed
qed

lemma spooky_restructure_hollow_inv:
  assumes "distinct (map value_to_weight_ratio ts)"
  shows "\<exists>t. spooky_restructure_hollow tb ts = Inr t \<and> spooky_inv t \<and>
             mset (stored t) = mset ts"
proof -
  define es where "es = map (\<lambda>treasure. (value_to_weight_ratio treasure, treasure)) ts"
  define t where "t = balanced (sort_key fst es)"
  have fst_es: "map fst es = map value_to_weight_ratio ts"
    and snd_es: "map snd es = ts"
    by (simp_all add: es_def comp_def)
  have d: "distinct (map fst es)" using assms fst_es by simp
  have 1: "spooky_restructure_hollow tb ts = Inr t"
    using BetterBST_balanced[OF d, of tb] by (simp add: spooky_restructure_hollow_def es_def t_def)
  have io: "inorder t = sort_key fst es" by (simp add: t_def inorder_balanced)
  have "list_all (\<lambda>p. fst p = value_to_weight_ratio (snd p)) (inorder t)"
    by (auto simp: io list_all_iff es_def)
  then have 2: "spooky_inv t"
    using strict_sorted_sort_key[OF d] by (simp add: spooky_inv_def io)
  have "mset (stored t) = image_mset snd (mset es)" by (simp add: stored_def io)
  also have "\<dots> = mset (map snd es)" by simp
  finally have 3: "mset (stored t) = mset ts" by (simp add: snd_es)
  show ?thesis using 1 2 3 by blast
qed

lemma ratios [simp]:
  "value_to_weight_ratio crown = 2" "value_to_weight_ratio ring = 2"
  "value_to_weight_ratio coin = 5" "value_to_weight_ratio rock = 1"
  by (simp_all add: value_to_weight_ratio_def crown_def ring_def coin_def rock_def)

lemma treasures_differ [simp]:
  "crown \<noteq> ring" "ring \<noteq> crown" "coin \<noteq> rock" "rock \<noteq> coin"
  by (simp_all add: crown_def ring_def coin_def rock_def)

lemma weights [simp]:
  "weight crown = 10" "weight ring = 1" "weight coin = 2" "weight rock = 5"
  by (simp_all add: crown_def ring_def coin_def rock_def)

lemma tied_store_right:
  "spooky_restructure_hollow TieRight [crown, ring]
     = Inr (Node Leaf 2 crown (Node Leaf 2 ring Leaf))"
  by (simp add: spooky_restructure_hollow_def BetterBST_fold midpoint_order.simps ins_Node
      ins_Leaf)

lemma tied_store_left:
  "spooky_restructure_hollow TieLeft [crown, ring]
     = Inr (Node (Node Leaf 2 ring Leaf) 2 crown Leaf)"
  by (simp add: spooky_restructure_hollow_def BetterBST_fold midpoint_order.simps ins_Node
      ins_Leaf)

lemma example_store:
  "spooky_restructure_hollow tb [coin, rock] = Inr (Node Leaf 1 rock (Node Leaf 5 coin Leaf))"
  by (simp add: spooky_restructure_hollow_def BetterBST_fold midpoint_order.simps ins_Node
      ins_Leaf)

section \<open>Facts about \<open>SpookyHollow.get_optimal_treasure\<close>\<close>

lemma spooky_none:
  assumes "is_empty t \<or> (\<forall>x \<in> set (stored t). \<not> weight x \<le> c)"
  shows "spooky_get_optimal_treasure t c = Inr (None, t)"
proof (cases "t = Leaf")
  case True
  then show ?thesis by (simp add: spooky_get_optimal_treasure_def)
next
  case ne: False
  with assms have heavy: "\<forall>x \<in> set (stored t). \<not> weight x \<le> c" by simp
  have mx: "get_maximal t = Some (last (inorder t))" using ne by (rule get_maximal_last)
  have "last (inorder t) \<in> set (inorder t)" using ne by simp
  then have "snd (last (inorder t)) \<in> set (stored t)" by (simp add: stored_def)
  with heavy have w: "\<not> weight (snd (last (inorder t))) \<le> c" by blast
  have f: "find (\<lambda>(ratio, treasure). weight treasure \<le> c) (rev (inorder t)) = None"
    using heavy by (auto simp: find_None_iff stored_def)
  show ?thesis
    using ne mx w f
    by (auto simp: spooky_get_optimal_treasure_def descending_nodes Let_def split: prod.splits)
qed

lemma spooky_feasible:
  assumes inv: "spooky_inv t" and ex: "\<exists>x \<in> set (stored t). weight x \<le> c"
  shows "\<exists>x t'. spooky_get_optimal_treasure t c = Inr (Some x, t') \<and>
           x \<in> set (stored t) \<and> weight x \<le> c \<and>
           (\<forall>y \<in> set (stored t). weight y \<le> c \<longrightarrow>
                value_to_weight_ratio y \<le> value_to_weight_ratio x) \<and>
           mset (stored t') + {#x#} = mset (stored t) \<and> x \<notin> set (stored t') \<and>
           spooky_inv t'"
proof -
  note k = spooky_inv_keys[OF inv]
  have key: "\<forall>q \<in> set (inorder t). fst q = value_to_weight_ratio (snd q)"
    using inv by (auto simp: spooky_inv_def list_all_iff)
  from ex have "\<exists>q \<in> set (inorder t). feasible c q"
    by (auto simp: stored_def feasible_def)
  then obtain p where f: "find (feasible c) (rev (inorder t)) = Some p"
    using find_rev_Some[of "inorder t" "feasible c"] by auto
  from find_rev_sorted[OF k(4) f]
  have p: "p \<in> set (inorder t)" "feasible c p"
    "\<forall>q \<in> set (inorder t). feasible c q \<longrightarrow> fst q \<le> fst p" by auto
  define x where "x = snd p"
  have px: "fst p = value_to_weight_ratio x" using key p(1) by (simp add: x_def)
  have strict: "sorted_wrt (<) (map fst (inorder t))" using inv by (simp add: spooky_inv_def)
  have "fst p \<in> fst ` set (inorder t)" using p(1) by blast
  from delete_aux_inorder[OF strict this] obtain t' where
    t': "delete_aux t (fst p) = Inr t'"
    "inorder t' = filter (\<lambda>q. fst q \<noteq> fst p) (inorder t)" by blast
  have res: "spooky_get_optimal_treasure t c = Inr (Some x, t')"
    by (simp add: spooky_as_find f t' x_def)
  have inj: "inj_on value_to_weight_ratio (set (stored t))"
    using k(2) by (simp add: distinct_map)
  have xin: "x \<in> set (stored t)" using p(1) by (auto simp: stored_def x_def)
  have "filter (\<lambda>q. fst q \<noteq> fst p) (inorder t) = filter (\<lambda>q. snd q \<noteq> x) (inorder t)"
  proof (rule filter_cong[OF refl])
    fix q assume q: "q \<in> set (inorder t)"
    then have "snd q \<in> set (stored t)" by (auto simp: stored_def)
    then show "(fst q \<noteq> fst p) = (snd q \<noteq> x)"
      using key q px inj xin by (auto dest: inj_onD)
  qed
  then have st: "stored t' = filter (\<lambda>y. y \<noteq> x) (stored t)"
    by (simp add: stored_def t'(2) filter_map comp_def)
  have le: "\<forall>y \<in> set (stored t). weight y \<le> c \<longrightarrow>
      value_to_weight_ratio y \<le> value_to_weight_ratio x"
  proof (intro ballI impI)
    fix y assume "y \<in> set (stored t)" "weight y \<le> c"
    then obtain q where "q \<in> set (inorder t)" "snd q = y" "feasible c q"
      by (auto simp: stored_def feasible_def)
    then show "value_to_weight_ratio y \<le> value_to_weight_ratio x"
      using p(3) key px by fastforce
  qed
  have inv': "spooky_inv t'"
    using inv unfolding spooky_inv_def t'(2)
    by (auto simp: list_all_iff sorted_wrt_map intro: sorted_wrt_filter)
  show ?thesis
    using res xin p(2) le st mset_filter_neq[OF k(3) xin] inv'
    by (auto simp: feasible_def x_def)
qed

section \<open>Facts about the heap: its contents\<close>

lemma mset_swap_at: "i < length xs \<Longrightarrow> j < length xs \<Longrightarrow> mset (swap_at i j xs) = mset xs"
  unfolding swap_at_def by (rule mset_swap)

lemma largest_child_bounds:
  "2 * k + 1 < length h \<Longrightarrow> largest_child k h < length h \<and> k < largest_child k h"
  by (auto simp: largest_child_def)

lemma mset_sink [simp]: "mset (sink k h) = mset h"
proof (induction k h rule: sink.induct)
  case (1 k h)
  show ?case
  proof (cases "2 * k + 1 < length h \<and>
      value_to_weight_ratio (h ! k) < value_to_weight_ratio (h ! largest_child k h)")
    case True
    then have "mset (sink k h) = mset (sink (largest_child k h) (swap_at k (largest_child k h) h))"
      by (subst sink.simps) (simp add: Let_def)
    also have "\<dots> = mset (swap_at k (largest_child k h) h)"
      using True "1.IH" by simp
    also have "\<dots> = mset h"
      using True largest_child_bounds[of k h] by (intro mset_swap_at) auto
    finally show ?thesis .
  next
    case False
    then show ?thesis by (subst sink.simps) (auto simp: Let_def)
  qed
qed

lemma length_rise [simp]: "length (rise k h) = length h"
proof (induction k h rule: rise.induct)
  case (1 k h)
  show ?case using "1.IH" by (subst rise.simps) simp
qed

lemma mset_rise [simp]: "mset (rise k h) = mset h"
proof (induction k h rule: rise.induct)
  case (1 k h)
  show ?case
  proof (cases "0 < k \<and> k < length h \<and>
         value_to_weight_ratio (h ! parent k) < value_to_weight_ratio (h ! k)")
    case True
    then have "parent k < length h" by (auto simp: parent_def)
    then have "mset (swap_at k (parent k) h) = mset h" using True by (intro mset_swap_at) auto
    then show ?thesis using True "1.IH" by (subst rise.simps) simp
  next
    case False
    then show ?thesis by (subst rise.simps) auto
  qed
qed

lemma mset_add [simp]: "mset (add h x) = add_mset x (mset h)"
  by (simp add: add_def)

lemma mset_foldl_add: "mset (foldl add h xs) = mset h + mset xs"
  by (induction xs arbitrary: h) auto

lemma mset_heapify [simp]: "mset (heapify xs) = mset xs"
proof -
  have "mset (fold sink ks h) = mset h" for ks h
    by (induction ks arbitrary: h) auto
  then show ?thesis by (simp add: heapify_def)
qed

lemma butlast_update_last:
  assumes "2 \<le> length h"
  shows "mset (butlast (h[0 := last h])) + {#h ! 0#} = mset h"
proof -
  obtain x zs where h1: "h = x # zs" using assms by (cases h) auto
  then have "zs \<noteq> []" using assms by auto
  then obtain ys y where "zs = ys @ [y]" by (cases zs rule: rev_cases) auto
  then have h: "h = x # ys @ [y]" using h1 by simp
  show ?thesis by (simp add: h butlast_append)
qed

lemma get_max_mset:
  "h \<noteq> [] \<Longrightarrow> \<exists>x h'. get_max h = Inr (x, h') \<and> x = h ! 0 \<and> mset h = add_mset x (mset h')"
proof -
  assume ne: "h \<noteq> []"
  show ?thesis
  proof (cases "length h = 1")
    case True
    then obtain x where "h = [x]" by (cases h) auto
    then show ?thesis by (simp add: get_max_def)
  next
    case False
    then have "2 \<le> length h" using ne by (cases h) (auto simp: Suc_le_eq)
    from butlast_update_last[OF this] show ?thesis
      using ne False by (simp add: get_max_def)
  qed
qed

lemma pop_until_fits_mset:
  "\<exists>r h' b'. pop_until_fits c h b = Inr (r, h', b') \<and>
      mset h + mset b = mset h' + mset b' + taken r"
proof (induction c h b rule: pop_until_fits.induct)
  case (1 c h b)
  show ?case
  proof (cases "h = []")
    case True
    then show ?thesis by (simp add: taken_def)
  next
    case False
    from get_max_mset[OF False] obtain x h' where
      g: "get_max h = Inr (x, h')" "mset h = add_mset x (mset h')" by blast
    show ?thesis
    proof (cases "weight x \<le> c")
      case True
      then show ?thesis using False g by (simp add: taken_def)
    next
      case w: False
      from "1.IH"[OF _ g(1) refl w] False
      obtain r h'' b' where
        "pop_until_fits c h' (b @ [x]) = Inr (r, h'', b')"
        "mset h' + mset (b @ [x]) = mset h'' + mset b' + taken r" by auto
      then show ?thesis using False g w by simp
    qed
  qed
qed

section \<open>Facts about the heap: its order\<close>

lemma parent_eq_iff: "0 < i \<Longrightarrow> parent i = k \<longleftrightarrow> i = 2 * k + 1 \<or> i = 2 * k + 2"
  by (auto simp: parent_def)

lemma parent_less: "0 < i \<Longrightarrow> parent i < i"
  by (auto simp: parent_def)

lemma rk_swap_at:
  "i < length h \<Longrightarrow> j < length h \<Longrightarrow>
   rk (swap_at i j h) n = (if n = j then rk h i else if n = i then rk h j else rk h n)"
  by (auto simp: rk_def swap_at_def nth_list_update)

lemma sink_step:
  assumes pre: "sink_pre s k h" and c: "2 * k + 1 < length h"
    and lt: "rk h k < rk h (largest_child k h)"
  shows "sink_pre s (largest_child k h) (swap_at k (largest_child k h) h)"
proof -
  define c where "c = largest_child k h"
  have cb: "c < length h" "k < c" "k < length h"
    using largest_child_bounds[OF assms(2)] by (auto simp: c_def)
  have pc: "parent c = k" "0 < c" using assms(2) by (auto simp: c_def largest_child_def parent_def)
  have sib: "\<And>i. i < length h \<Longrightarrow> 0 < i \<Longrightarrow> parent i = k \<Longrightarrow> rk h i \<le> rk h c"
    using assms(2) by (auto simp: parent_eq_iff c_def largest_child_def rk_def)
  have p1: "\<And>i. i < length h \<Longrightarrow> 0 < i \<Longrightarrow> s \<le> parent i \<Longrightarrow> parent i \<noteq> k \<Longrightarrow>
      rk h i \<le> rk h (parent i)"
    using pre by (auto simp: sink_pre_def)
  have p2: "\<And>i. 0 < k \<Longrightarrow> s \<le> parent k \<Longrightarrow> i < length h \<Longrightarrow> 0 < i \<Longrightarrow> parent i = k \<Longrightarrow>
      rk h i \<le> rk h (parent k)"
    using pre by (auto simp: sink_pre_def)
  have sk: "s \<le> k" using pre by (simp add: sink_pre_def)
  note sw = rk_swap_at[OF cb(3) cb(1)]
  have A: "rk (swap_at k c h) i \<le> rk (swap_at k c h) (parent i)"
    if i: "i < length h" "0 < i" "s \<le> parent i" "parent i \<noteq> c" for i
  proof (cases "parent i = k")
    case True
    show ?thesis
    proof (cases "i = c")
      case True
      then show ?thesis using lt pc cb by (simp add: sw c_def[symmetric])
    next
      case False
      have "i \<noteq> k" using True parent_less[OF i(2)] by auto
      then show ?thesis using sib[OF i(1,2) True] True False cb by (simp add: sw)
    qed
  next
    case False
    then have ic: "i \<noteq> c" using pc by auto
    show ?thesis
    proof (cases "i = k")
      case True
      then have k0: "0 < k" "s \<le> parent k" using i by auto
      have pk: "parent k \<noteq> k" "parent k \<noteq> c" using parent_less[OF k0(1)] cb by auto
      have "rk h c \<le> rk h (parent k)" using p2[OF k0 cb(1) pc(2) pc(1)] .
      then show ?thesis using True pk cb by (simp add: sw)
    next
      case ik: False
      have "rk h i \<le> rk h (parent i)" using p1[OF i(1,2,3) False] .
      then show ?thesis using ik ic False i(4) by (simp add: sw)
    qed
  qed
  have B: "rk (swap_at k c h) i \<le> rk (swap_at k c h) (parent c)"
    if i: "i < length h" "0 < i" "parent i = c" for i
  proof -
    have ne: "i \<noteq> k" "i \<noteq> c" using i parent_less[OF i(2)] cb by auto
    have "s \<le> parent i" "parent i \<noteq> k" using i sk cb by auto
    from p1[OF i(1,2) this] have "rk h i \<le> rk h c" using i by simp
    then show ?thesis using ne pc cb by (simp add: sw)
  qed
  show ?thesis
    unfolding sink_pre_def c_def[symmetric]
    using A B sk cb by auto
qed

lemma sink_ok:
  "sink_pre s k h \<Longrightarrow> ok_below s (sink k h)"
proof (induction k h rule: sink.induct)
  case (1 k h)
  show ?case
  proof (cases "2 * k + 1 < length h")
    case False
    then have "\<And>i. i < length h \<Longrightarrow> 0 < i \<Longrightarrow> parent i \<noteq> k"
      by (auto simp: parent_eq_iff)
    then have "ok_below s h" using "1.prems" by (auto simp: sink_pre_def ok_below_def)
    then show ?thesis using False by (subst sink.simps) simp
  next
    case True
    define c where "c = largest_child k h"
    show ?thesis
    proof (cases "rk h k < rk h c")
      case lt: True
      have "sink_pre s c (swap_at k c h)"
        using sink_step[OF "1.prems" True] lt by (simp add: c_def)
      from "1.IH"[OF True c_def[symmetric, THEN sym] _ this] lt
      have "ok_below s (sink c (swap_at k c h))" by (simp add: rk_def c_def)
      then show ?thesis using True lt
        by (subst sink.simps) (simp add: Let_def c_def rk_def)
    next
      case ge: False
      have sib: "\<And>i. i < length h \<Longrightarrow> 0 < i \<Longrightarrow> parent i = k \<Longrightarrow> rk h i \<le> rk h c"
        using True by (auto simp: parent_eq_iff c_def largest_child_def rk_def)
      have "ok_below s h"
        unfolding ok_below_def
      proof (intro allI impI)
        fix i assume i: "i < length h" "0 < i \<and> s \<le> parent i"
        show "rk h i \<le> rk h (parent i)"
        proof (cases "parent i = k")
          case True
          then show ?thesis using sib[of i] i ge by auto
        next
          case False
          then show ?thesis using "1.prems" i by (auto simp: sink_pre_def)
        qed
      qed
      then show ?thesis using True ge
        by (subst sink.simps) (simp add: Let_def c_def rk_def)
    qed
  qed
qed

lemma rise_ok:
  "rise_pre k h \<Longrightarrow> heap_inv (rise k h)"
proof (induction k h rule: rise.induct)
  case (1 k h)
  define p where "p = parent k"
  have p1: "\<And>i. i < length h \<Longrightarrow> 0 < i \<Longrightarrow> i \<noteq> k \<Longrightarrow> rk h i \<le> rk h (parent i)"
    using "1.prems" by (auto simp: rise_pre_def)
  have p2: "\<And>i. 0 < k \<Longrightarrow> i < length h \<Longrightarrow> 0 < i \<Longrightarrow> parent i = k \<Longrightarrow> rk h i \<le> rk h p"
    using "1.prems" by (auto simp: rise_pre_def p_def)
  show ?case
  proof (cases "0 < k \<and> k < length h \<and> rk h p < rk h k")
    case False
    have "heap_inv h"
      unfolding heap_inv_def ok_below_def
    proof (intro allI impI)
      fix i assume i: "i < length h" "0 < i \<and> 0 \<le> parent i"
      show "rk h i \<le> rk h (parent i)"
      proof (cases "i = k")
        case True
        then show ?thesis using False i by (auto simp: p_def)
      next
        case False
        then show ?thesis using p1 i by auto
      qed
    qed
    then show ?thesis using False by (subst rise.simps) (auto simp: rk_def p_def)
  next
    case True
    then have k: "0 < k" "k < length h" and lt: "rk h p < rk h k" by auto
    have pk: "p < k" "p < length h" using parent_less[OF k(1)] k by (auto simp: p_def)
    note sw = rk_swap_at[OF k(2) pk(2)]
    have A: "rk (swap_at k p h) i \<le> rk (swap_at k p h) (parent i)"
      if i: "i < length h" "0 < i" "i \<noteq> p" for i
    proof (cases "i = k")
      case True
      then show ?thesis using lt pk by (simp add: sw p_def[symmetric])
    next
      case ik: False
      show ?thesis
      proof (cases "parent i = p")
        case True
        have "rk h i \<le> rk h p" using p1[OF i(1,2) ik] True by simp
        then show ?thesis using True ik i(3) lt pk by (simp add: sw)
      next
        case np: False
        show ?thesis
        proof (cases "parent i = k")
          case True
          then show ?thesis using p2[OF k(1) i(1,2) True] ik i(3) pk by (simp add: sw)
        next
          case False
          then show ?thesis using p1[OF i(1,2) ik] ik i(3) np by (simp add: sw)
        qed
      qed
    qed
    have B: "rk (swap_at k p h) i \<le> rk (swap_at k p h) (parent p)"
      if i: "0 < p" "i < length h" "0 < i" "parent i = p" for i
    proof -
      have pp: "parent p < p" using parent_less[OF i(1)] .
      then have ne: "parent p \<noteq> k" "parent p \<noteq> p" using pk by auto
      have up: "rk h p \<le> rk h (parent p)" using p1[OF pk(2) i(1)] pk by simp
      have ip: "i \<noteq> p" using i parent_less[OF i(3)] by auto
      show ?thesis
      proof (cases "i = k")
        case True
        then show ?thesis using up ne pk by (simp add: sw)
      next
        case False
        have "rk h i \<le> rk h p" using p1[OF i(2,3) False] i(4) by simp
        then show ?thesis using up False ip ne by (simp add: sw)
      qed
    qed
    have "rise_pre p (swap_at k p h)"
      unfolding rise_pre_def using A B by auto
    from "1.IH"[OF True[unfolded rk_def p_def] this[unfolded p_def]]
    show ?thesis using True by (subst rise.simps) (simp add: rk_def p_def)
  qed
qed

lemma heap_inv_add: "heap_inv h \<Longrightarrow> heap_inv (add h x)"
proof -
  assume inv: "heap_inv h"
  have "rise_pre (length h) (h @ [x])"
    unfolding rise_pre_def
  proof (intro conjI allI impI)
    fix i assume i: "i < length (h @ [x])" "0 < i \<and> i \<noteq> length h"
    then have il: "i < length h" by auto
    then have "parent i < length h" using parent_less[of i] i by auto
    then show "rk (h @ [x]) i \<le> rk (h @ [x]) (parent i)"
      using inv il i by (auto simp: heap_inv_def ok_below_def rk_def nth_append)
  next
    fix i assume "0 < length h" "i < length (h @ [x])" "0 < i \<and> parent i = length h"
    then have False using parent_less[of i] by auto
    then show "rk (h @ [x]) i \<le> rk (h @ [x]) (parent (length h))" ..
  qed
  then show ?thesis unfolding add_def by (rule rise_ok)
qed

lemma heap_inv_foldl_add: "heap_inv h \<Longrightarrow> heap_inv (foldl add h xs)"
  by (induction xs arbitrary: h) (auto simp: heap_inv_add)

lemma heap_inv_root:
  "heap_inv h \<Longrightarrow> i < length h \<Longrightarrow> rk h i \<le> rk h 0"
proof (induction i rule: less_induct)
  case (less i)
  show ?case
  proof (cases "i = 0")
    case True
    then show ?thesis by simp
  next
    case False
    then have i0: "0 < i" by simp
    have "rk h i \<le> rk h (parent i)"
      using less.prems i0 by (auto simp: heap_inv_def ok_below_def)
    moreover have "rk h (parent i) \<le> rk h 0"
      using less.IH[OF parent_less[OF i0] less.prems(1)] parent_less[OF i0] less.prems(2) by simp
    ultimately show ?thesis by simp
  qed
qed

lemma heap_inv_get_max:
  assumes "heap_inv h" "h \<noteq> []"
  shows "\<exists>x h'. get_max h = Inr (x, h') \<and> x = h ! 0 \<and> mset h = add_mset x (mset h') \<and>
           heap_inv h' \<and> (\<forall>y \<in> set h. value_to_weight_ratio y \<le> value_to_weight_ratio x)"
proof -
  have top: "\<forall>y \<in> set h. value_to_weight_ratio y \<le> value_to_weight_ratio (h ! 0)"
    using heap_inv_root[OF assms(1)] by (auto simp: in_set_conv_nth rk_def)
  from get_max_mset[OF assms(2)] obtain x h' where
    g: "get_max h = Inr (x, h')" "x = h ! 0" "mset h = add_mset x (mset h')" by blast
  have "heap_inv h'"
  proof (cases "length h = 1")
    case True
    then show ?thesis using g(1) assms(2) by (auto simp: get_max_def heap_inv_def ok_below_def)
  next
    case False
    define h1 where "h1 = butlast (h[0 := last h])"
    have len: "length h1 = length h - 1" by (simp add: h1_def)
    have nth: "\<And>i. 0 < i \<Longrightarrow> i < length h1 \<Longrightarrow> h1 ! i = h ! i"
      by (simp add: h1_def nth_butlast)
    have "sink_pre 0 0 h1"
      unfolding sink_pre_def
    proof (intro conjI allI impI)
      fix i assume i: "i < length h1" "0 < i \<and> 0 \<le> parent i \<and> parent i \<noteq> 0"
      then have pi: "0 < parent i" "parent i < length h1" using parent_less[of i] by auto
      have "rk h i \<le> rk h (parent i)"
        using assms(1) i len by (auto simp: heap_inv_def ok_below_def)
      then show "rk h1 i \<le> rk h1 (parent i)"
        using nth[of i] nth[OF pi] i by (simp add: rk_def)
    qed auto
    then have "heap_inv (sink 0 h1)" unfolding heap_inv_def by (rule sink_ok)
    moreover have "h' = sink 0 h1" using g(1) False assms(2) by (simp add: get_max_def h1_def)
    ultimately show ?thesis by simp
  qed
  then show ?thesis using g top by auto
qed

lemma heap_inv_heapify: "heap_inv (heapify xs)"
proof -
  have step: "ok_below (Suc s) h \<Longrightarrow> ok_below s (sink s h)" for s h
  proof (rule sink_ok)
    assume a: "ok_below (Suc s) h"
    show "sink_pre s s h"
      unfolding sink_pre_def
    proof (intro conjI allI impI)
      fix i assume "i < length h" "0 < i \<and> s \<le> parent i \<and> parent i \<noteq> s"
      then show "rk h i \<le> rk h (parent i)" using a by (auto simp: ok_below_def)
    next
      fix i assume "0 < s \<and> s \<le> parent s"
      then have False using parent_less[of s] by auto
      then show "rk h i \<le> rk h (parent s)" ..
    qed simp
  qed
  have fold: "ok_below m h \<Longrightarrow> ok_below 0 (fold sink (rev [0 ..< m]) h)" for m h
  proof (induction m arbitrary: h)
    case 0
    then show ?case by simp
  next
    case (Suc m)
    from Suc.IH[OF step[OF Suc.prems]] show ?case by simp
  qed
  have "ok_below (length xs) xs"
    unfolding ok_below_def
  proof (intro allI impI)
    fix i assume "i < length xs" "0 < i \<and> length xs \<le> parent i"
    then have False using parent_less[of i] by auto
    then show "rk xs i \<le> rk xs (parent i)" ..
  qed
  from fold[OF this] show ?thesis by (simp add: heap_inv_def heapify_def)
qed

lemma best_of_unique:
  assumes "inj_on value_to_weight_ratio (set_mset M)" "best_of c M r" "best_of c M r'"
  shows "r = r'"
proof (cases r; cases r')
  fix x x' assume r: "r = Some x" "r' = Some x'"
  then have "value_to_weight_ratio x \<le> value_to_weight_ratio x'"
    "value_to_weight_ratio x' \<le> value_to_weight_ratio x" "x \<in># M" "x' \<in># M"
    using assms(2,3) by (auto simp: best_of_def)
  then have "x = x'" using assms(1) by (auto dest: inj_onD)
  then show ?thesis using r by simp
qed (use assms(2,3) in \<open>auto simp: best_of_def\<close>)

lemma pop_until_fits_best:
  "heap_inv h \<Longrightarrow> \<forall>y \<in> set b. \<not> weight y \<le> c \<Longrightarrow>
   \<exists>r h' b'. pop_until_fits c h b = Inr (r, h', b') \<and> heap_inv h' \<and>
      (\<forall>y \<in> set b'. \<not> weight y \<le> c) \<and>
      mset h + mset b = mset h' + mset b' + taken r \<and>
      (case r of None \<Rightarrow> h' = []
       | Some x \<Rightarrow> weight x \<le> c \<and>
           (\<forall>y \<in> set h'. value_to_weight_ratio y \<le> value_to_weight_ratio x))"
proof (induction c h b rule: pop_until_fits.induct)
  case (1 c h b)
  show ?case
  proof (cases "h = []")
    case True
    then show ?thesis using "1.prems" by (simp add: taken_def)
  next
    case False
    from heap_inv_get_max[OF "1.prems"(1) False] obtain x h' where
      g: "get_max h = Inr (x, h')" "mset h = add_mset x (mset h')" "heap_inv h'"
      "\<forall>y \<in> set h. value_to_weight_ratio y \<le> value_to_weight_ratio x" by blast
    have "set_mset (mset h) = insert x (set_mset (mset h'))" unfolding g(2) by simp
    then have sub: "set h' \<subseteq> set h" by auto
    show ?thesis
    proof (cases "weight x \<le> c")
      case True
      then show ?thesis using False g sub "1.prems" by (auto simp: taken_def)
    next
      case w: False
      have b: "\<forall>y \<in> set (b @ [x]). \<not> weight y \<le> c" using "1.prems"(2) w by auto
      from "1.IH"[OF _ g(1) refl w g(3) b] False
      obtain r h'' b' where
        "pop_until_fits c h' (b @ [x]) = Inr (r, h'', b')" "heap_inv h''"
        "\<forall>y \<in> set b'. \<not> weight y \<le> c"
        "mset h' + mset (b @ [x]) = mset h'' + mset b' + taken r"
        "case r of None \<Rightarrow> h'' = []
         | Some x \<Rightarrow> weight x \<le> c \<and>
             (\<forall>y \<in> set h''. value_to_weight_ratio y \<le> value_to_weight_ratio x)" by auto
      then show ?thesis using False g w by simp
    qed
  qed
qed

lemma mystical_best:
  assumes "heap_inv (heap hollow)"
  shows "\<exists>r hollow'. mystical_get_optimal_treasure hollow c = Inr (r, hollow') \<and>
     best_of c (mset (heap hollow)) r \<and>
     mset (heap hollow) = mset (heap hollow') + taken r \<and> heap_inv (heap hollow')"
proof -
  from pop_until_fits_best[OF assms, of "[]" c] obtain r h b where
    p: "pop_until_fits c (heap hollow) [] = Inr (r, h, b)" "heap_inv h"
      "\<forall>y \<in> set b. \<not> weight y \<le> c"
      "mset (heap hollow) = mset h + mset b + taken r"
      "case r of None \<Rightarrow> h = []
         | Some x \<Rightarrow> weight x \<le> c \<and>
             (\<forall>y \<in> set h. value_to_weight_ratio y \<le> value_to_weight_ratio x)"
    by auto
  define hollow' where "hollow' = hollow\<lparr>heap := foldl add h b\<rparr>"
  have 1: "mystical_get_optimal_treasure hollow c = Inr (r, hollow')"
    using p(1) by (simp add: mystical_get_optimal_treasure_def heap_equals_zero_def hollow'_def)
  have 2: "mset (heap hollow) = mset (heap hollow') + taken r"
    using p(4) by (simp add: hollow'_def mset_foldl_add)
  have 3: "heap_inv (heap hollow')" using p(2) by (simp add: hollow'_def heap_inv_foldl_add)
  have mem: "y \<in> set h \<or> y \<in> set b \<or> y \<in># taken r" if "y \<in># mset (heap hollow)" for y
    using that unfolding p(4) by auto
  have 4: "best_of c (mset (heap hollow)) r"
  proof (cases r)
    case None
    then show ?thesis using p(3,5) mem by (fastforce simp: best_of_def taken_def)
  next
    case (Some x)
    have "x \<in># mset (heap hollow)" unfolding p(4) using Some by (simp add: taken_def)
    moreover have "value_to_weight_ratio y \<le> value_to_weight_ratio x"
      if "y \<in># mset (heap hollow)" "weight y \<le> c" for y
      using mem[OF that(1)] that(2) p(3,5) Some by (auto simp: taken_def)
    ultimately show ?thesis using Some p(5) by (auto simp: best_of_def)
  qed
  show ?thesis using 1 2 3 4 by blast
qed

section \<open>Facts about runs on the two stores\<close>

lemma spooky_best:
  assumes "spooky_inv t"
  shows "\<exists>r t'. spooky_get_optimal_treasure t c = Inr (r, t') \<and>
     best_of c (mset (stored t)) r \<and>
     mset (stored t) = mset (stored t') + taken r \<and> spooky_inv t'"
proof (cases "\<exists>x \<in> set (stored t). weight x \<le> c")
  case True
  from spooky_feasible[OF assms True] obtain x t' where
    "spooky_get_optimal_treasure t c = Inr (Some x, t')" "x \<in> set (stored t)" "weight x \<le> c"
    "\<forall>y \<in> set (stored t). weight y \<le> c \<longrightarrow> value_to_weight_ratio y \<le> value_to_weight_ratio x"
    "mset (stored t') + {#x#} = mset (stored t)" "spooky_inv t'" by blast
  then show ?thesis by (auto simp: best_of_def taken_def)
next
  case False
  then have "spooky_get_optimal_treasure t c = Inr (None, t)"
    by (intro spooky_none) auto
  then show ?thesis using False assms by (auto simp: best_of_def taken_def)
qed

lemma runs_agree:
  "spooky_inv t \<Longrightarrow> heap_inv (heap hollow) \<Longrightarrow> mset (stored t) = mset (heap hollow) \<Longrightarrow>
   \<exists>rs. spooky_run t cs = Inr rs \<and> mystical_run hollow cs = Inr rs"
proof (induction cs arbitrary: t hollow)
  case Nil
  then show ?case by simp
next
  case (Cons c cs)
  from spooky_best[OF Cons.prems(1), of c] obtain r t' where
    s: "spooky_get_optimal_treasure t c = Inr (r, t')" "best_of c (mset (stored t)) r"
    "mset (stored t) = mset (stored t') + taken r" "spooky_inv t'" by blast
  from mystical_best[OF Cons.prems(2), of c] obtain r' hollow' where
    m: "mystical_get_optimal_treasure hollow c = Inr (r', hollow')"
    "best_of c (mset (heap hollow)) r'"
    "mset (heap hollow) = mset (heap hollow') + taken r'" "heap_inv (heap hollow')" by blast
  have "inj_on value_to_weight_ratio (set_mset (mset (stored t)))"
    using spooky_inv_keys(2)[OF Cons.prems(1)] by (simp add: distinct_map)
  from best_of_unique[OF this s(2)] m(2) Cons.prems(3) have rr: "r' = r" by simp
  have "mset (stored t') = mset (heap hollow')"
    using s(3) m(3) Cons.prems(3) rr by simp
  from Cons.IH[OF s(4) m(4) this] obtain rs where
    "spooky_run t' cs = Inr rs" "mystical_run hollow' cs = Inr rs" by blast
  then show ?case using s(1) m(1) rr by simp
qed

lemma heap_tied: "heapify [crown, ring] = [crown, ring]"
  by (simp add: heapify_def sink.simps largest_child_def)

lemma mystical_tied:
  "mystical_run (mystical_restructure_hollow [crown, ring]) [5, 5] = Inr [Some ring, None]"
  by (simp add: mystical_restructure_hollow_def heap_tied mystical_get_optimal_treasure_def
      heap_equals_zero_def get_max_def sink.simps add_def rise.simps)

lemma spooky_tied:
  "spooky_run (Node Leaf 2 crown (Node Leaf 2 ring Leaf)) [5, 5] = Inr [Some ring, Some ring]"
  "spooky_run (Node (Node Leaf 2 ring Leaf) 2 crown Leaf) [5, 5] = Inr [Some ring, Some ring]"
  by (simp_all add: spooky_as_find feasible_def)

section \<open>Facts about the harvest and the search\<close>

lemma get_optimal_treasure_kind:
  "get_optimal_treasure hs a c = Inr (r, hs') \<Longrightarrow>
   isinstance_MysticalHollow hs' (HollowTile a) = isinstance_MysticalHollow hs (HollowTile a)"
  by (auto simp: get_optimal_treasure_def split: Hollow.splits sum.splits)

lemma loop_body:
  "(case (if isinstance_SpookyHollow (fst st) t then take_from t st else Inr st) of
      Inl e \<Rightarrow> Inl e
    | Inr st1 \<Rightarrow> (if isinstance_MysticalHollow (fst st1) t then take_from t st1 else Inr st1))
   = take_from t st"
proof (cases t)
  case (Str s)
  then show ?thesis by (cases st) (simp add: take_from_def)
next
  case (HollowTile a)
  obtain hs c acc where st: "st = (hs, c, acc)" by (cases st)
  show ?thesis
  proof (cases "hs a")
    case (Spooky tr)
    then have sp: "isinstance_SpookyHollow hs (HollowTile a)"
      "\<not> isinstance_MysticalHollow hs (HollowTile a)" by simp_all
    show ?thesis
    proof (cases "take_from t st")
      case (Inl e)
      then show ?thesis using sp HollowTile st by simp
    next
      case (Inr st1)
      then obtain r hs' where g: "get_optimal_treasure hs a c = Inr (r, hs')" "fst st1 = hs'"
        using HollowTile st
        by (auto simp: take_from_def split: sum.splits option.splits)
      from get_optimal_treasure_kind[OF g(1)] sp(2) g(2)
      have "\<not> isinstance_MysticalHollow (fst st1) (HollowTile a)" by simp
      then show ?thesis using sp HollowTile st Inr by simp
    qed
  next
    case (Mystical m)
    then show ?thesis using HollowTile st by simp
  qed
qed

lemma foldl_harvest_step_Inl: "foldl harvest_step (Inl e) cells = Inl e"
  by (induction cells) (simp_all add: harvest_step_def)

lemma harvest_step_take_from: "harvest_step (Inr st) cell = take_from (tile cell) st"
  by (cases st) (simp add: harvest_step_def take_from_def)

lemma loop_is_fold:
  "take_treasures_loop (map MazeCellObj cells) st = foldl harvest_step (Inr st) cells"
proof (induction cells arbitrary: st)
  case Nil
  then show ?case by simp
next
  case (Cons cell cells)
  define A where "A = (if isinstance_SpookyHollow (fst st) (tile cell)
      then take_from (tile cell) st else Inr st)"
  have "take_treasures_loop (map MazeCellObj (cell # cells)) st =
      (case (case A of Inl e \<Rightarrow> Inl e
             | Inr st1 \<Rightarrow> (if isinstance_MysticalHollow (fst st1) (tile cell)
                 then take_from (tile cell) st1 else Inr st1)) of
         Inl e \<Rightarrow> Inl e
       | Inr st2 \<Rightarrow> take_treasures_loop (map MazeCellObj cells) st2)"
    unfolding A_def[symmetric] by (cases A) (simp_all add: A_def[symmetric])
  then have "take_treasures_loop (map MazeCellObj (cell # cells)) st =
      (case take_from (tile cell) st of Inl e \<Rightarrow> Inl e
       | Inr st2 \<Rightarrow> take_treasures_loop (map MazeCellObj cells) st2)"
    unfolding A_def loop_body .
  then show ?case
    by (simp add: Cons.IH harvest_step_take_from foldl_harvest_step_Inl split: sum.splits)
qed

lemma adjacent_iff:
  "adjacent p q \<longleftrightarrow>
     q \<in> set (map (\<lambda>(alter_row, alter_column).
               \<lparr>row = row p + alter_row, col = col p + alter_column\<rparr>) exit_postions)"
proof (cases q)
  case (fields r c)
  then show ?thesis by (auto simp: adjacent_def exit_postions_def)
qed

lemma valid_iff: "is_valid_position self q \<longleftrightarrow> passable self q \<and> \<not> seen self q"
  by (auto simp: is_valid_position_def passable_def seen_def in_bounds_def cell_at_def Let_def)

lemma available_iff:
  "q \<in> set (get_available_positions self p) \<longleftrightarrow> adjacent p q \<and> passable self q \<and> \<not> seen self q"
  unfolding adjacent_iff get_available_positions_def by (auto simp: valid_iff)

lemma in_bounds_index:
  "in_bounds self p \<Longrightarrow> grid_index self (row p) (col p) = Some (nat (row p), nat (col p))"
  by (auto simp: in_bounds_def grid_index_def py_index_def)

lemma extends_facts:
  assumes "extends self s"
  shows "in_bounds s = in_bounds self" "passable s = passable self" "is_exit s = is_exit self"
    "seen self p \<Longrightarrow> seen s p" "closed self v \<Longrightarrow> closed s v" "settled self v \<Longrightarrow> settled s v"
proof -
  show 1: "in_bounds s = in_bounds self" using assms by (auto simp: extends_def in_bounds_def fun_eq_iff)
  show 2: "passable s = passable self" using assms 1
    by (auto simp: extends_def passable_def cell_at_def fun_eq_iff)
  show 3: "is_exit s = is_exit self" using assms 1
    by (auto simp: extends_def is_exit_def cell_at_def fun_eq_iff)
  show 4: "seen self p \<Longrightarrow> seen s p" for p using assms by (auto simp: extends_def seen_def cell_at_def)
  show 5: "closed self v \<Longrightarrow> closed s v" using 2 4 by (auto simp: closed_def)
  show "settled self v \<Longrightarrow> settled s v" using 3 5 by (auto simp: settled_def)
qed

lemma seen_mark:
  "in_bounds self q \<Longrightarrow> in_bounds self v \<Longrightarrow>
   seen (mark self (nat (row q), nat (col q))) v \<longleftrightarrow> v = q \<or> seen self v"
proof -
  assume a: "in_bounds self q" "in_bounds self v"
  have "(nat (row v), nat (col v)) = (nat (row q), nat (col q)) \<longleftrightarrow> v = q"
    using a by (auto simp: in_bounds_def intro: Position.equality)
  then show ?thesis by (auto simp: seen_def cell_at_def mark_def)
qed

lemma dfs_unfold:
  assumes "in_bounds self q"
  defines "self1 \<equiv> mark self (nat (row q), nat (col q))"
  shows "depth_first_search self path q =
     (if is_exit self q then Inr (True, self1, path @ [q])
      else (case search_each self1 (path @ [q]) (get_available_positions self1 q) of
              Inl e \<Rightarrow> Inl e
            | Inr (True, self2, path2) \<Rightarrow> Inr (True, self2, path2)
            | Inr (False, self2, path2) \<Rightarrow>
                if path2 = [] then Inl IndexError else Inr (False, self2, butlast path2)))"
  using assms(1)
  by (simp add: depth_first_search.simps in_bounds_index is_exit_def cell_at_def self1_def
      mark_def Let_def)

lemma found_exit:
  assumes "in_bounds self q" "is_exit self q" "search_pre self [q]"
  shows "search_ok (Inr (True, mark self (nat (row q), nat (col q)), path @ [q])) self path [q]"
proof -
  have "\<not> seen self q" using assms by (auto simp: search_pre_def settled_def)
  then have "found_post self path [q] (path @ [q])"
    using assms by (auto simp: found_post_def search_pre_def)
  then show ?thesis by (simp add: search_ok_def extends_mark)
qed

lemma found_below:
  assumes inb: "in_bounds self q" and pre: "search_pre self [q]"
    and f: "found_post (mark self (nat (row q), nat (col q))) (path @ [q])
              (get_available_positions (mark self (nat (row q), nat (col q))) q) p"
  shows "found_post self path [q] p"
proof -
  define self1 where "self1 = mark self (nat (row q), nat (col q))"
  have e: "extends self self1" by (simp add: self1_def extends_mark)
  note ef = extends_facts[OF e]
  from f obtain a new where
    p: "p = (path @ [q]) @ a # new" and a: "a \<in> set (get_available_positions self1 q)"
    and adj: "successively adjacent (a # new)"
    and el: "\<forall>x \<in> set (a # new). passable self1 x \<and> \<not> seen self1 x"
    and d: "distinct (a # new)" and ex: "is_exit self1 (last (a # new))"
    by (auto simp: found_post_def self1_def)
  have aq: "adjacent q a" "passable self a" "\<not> seen self1 a"
    using a ef by (auto simp: available_iff)
  have inb_el: "\<forall>x \<in> set (a # new). in_bounds self x" using el ef by (auto simp: passable_def)
  have q1: "seen self1 q" using seen_mark[OF inb inb] by (simp add: self1_def)
  have nq: "q \<notin> set (a # new)" using el q1 by auto
  have unseen: "\<forall>x \<in> set (a # new). \<not> seen self x" using el ef(4) by blast
  have "\<not> seen self q"
  proof
    assume "seen self q"
    then have "closed self q" using pre by (simp add: search_pre_def settled_def)
    then have "seen self a" using aq by (auto simp: closed_def)
    then show False using unseen by simp
  qed
  moreover have "passable self q" using pre by (simp add: search_pre_def)
  ultimately show ?thesis
    unfolding found_post_def
    apply (intro exI[of _ q] exI[of _ "a # new"])
    using p adj aq(1) el ef unseen d nq ex by auto
qed

lemma failed_below:
  assumes inb: "in_bounds self q" and pre: "search_pre self [q]" and ne: "\<not> is_exit self q"
    and e1: "extends (mark self (nat (row q), nat (col q))) s"
    and f: "failed_post (mark self (nat (row q), nat (col q)))
              (get_available_positions (mark self (nat (row q), nat (col q))) q) s"
  shows "failed_post self [q] s"
proof -
  define self1 where "self1 = mark self (nat (row q), nat (col q))"
  have e: "extends self self1" by (simp add: self1_def extends_mark)
  note ef = extends_facts[OF e]
  note ef1 = extends_facts[OF e1[folded self1_def]]
  have q1: "seen self1 q" using seen_mark[OF inb inb] by (simp add: self1_def)
  then have qs: "seen s q" by (rule ef1(4))
  have av: "\<And>n. n \<in> set (get_available_positions self1 q) \<Longrightarrow> seen s n"
    using f by (simp add: failed_post_def self1_def)
  have "closed s q"
    unfolding closed_def
  proof (intro allI impI)
    fix n assume n: "adjacent q n \<and> passable s n"
    then have pn: "passable self1 n" using ef1 by simp
    show "seen s n"
    proof (cases "seen self1 n")
      case True
      then show ?thesis by (rule ef1(4))
    next
      case False
      then have "n \<in> set (get_available_positions self1 q)" using n pn by (simp add: available_iff)
      then show ?thesis by (rule av)
    qed
  qed
  then have sq: "settled s q" using ne ef ef1 by (simp add: settled_def)
  have "settled s v" if v: "in_bounds self v" "seen s v" "\<not> seen self v \<or> v = q" for v
  proof (cases "v = q")
    case True
    then show ?thesis using sq by simp
  next
    case False
    then have "\<not> seen self1 v" using v seen_mark[OF inb v(1)] by (simp add: self1_def)
    then show ?thesis using f v ef by (auto simp: failed_post_def self1_def)
  qed
  then show ?thesis using qs by (auto simp: failed_post_def)
qed

lemma pre_rest:
  assumes pre: "search_pre self (q # rest)" and e: "extends self s1"
    and f: "failed_post self [q] s1"
  shows "search_pre s1 rest"
  unfolding search_pre_def
proof (intro ballI conjI impI)
  note ef = extends_facts[OF e]
  fix r assume r: "r \<in> set rest"
  then have pr: "passable self r" "seen self r \<longrightarrow> settled self r"
    using pre by (auto simp: search_pre_def)
  show "passable s1 r" using pr ef by simp
  assume s: "seen s1 r"
  show "settled s1 r"
  proof (cases "seen self r")
    case True
    then show ?thesis using pr ef(6) by blast
  next
    case False
    then show ?thesis using f s pr(1) by (auto simp: failed_post_def passable_def)
  qed
qed

lemma found_rest:
  assumes e: "extends self s1" and f: "found_post s1 path rest p"
  shows "found_post self path (q # rest) p"
proof -
  note ef = extends_facts[OF e]
  from f obtain r new where
    "p = path @ r # new" "r \<in> set rest" "successively adjacent (r # new)"
    "\<forall>x \<in> set (r # new). passable s1 x \<and> \<not> seen s1 x"
    "distinct (r # new)" "is_exit s1 (last (r # new))"
    unfolding found_post_def by blast
  then show ?thesis
    unfolding found_post_def
    apply (intro exI[of _ r] exI[of _ new])
    using ef by auto
qed

lemma failed_rest:
  assumes e: "extends self s1" and e2: "extends s1 s"
    and f1: "failed_post self [q] s1" and f2: "failed_post s1 rest s"
  shows "failed_post self (q # rest) s"
proof -
  note ef = extends_facts[OF e]
  note ef2 = extends_facts[OF e2]
  have a: "\<forall>r \<in> set (q # rest). seen s r"
    using f1 f2 ef2(4) by (auto simp: failed_post_def)
  have "settled s v" if v: "in_bounds self v" "seen s v" "\<not> seen self v \<or> v \<in> set (q # rest)" for v
  proof (cases "seen s1 v")
    case False
    then show ?thesis using f2 v ef by (auto simp: failed_post_def)
  next
    case True
    show ?thesis
    proof (cases "\<not> seen self v \<or> v = q")
      case True
      then have "settled s1 v" using f1 v \<open>seen s1 v\<close> by (auto simp: failed_post_def)
      then show ?thesis by (rule ef2(6))
    next
      case False
      then have "v \<in> set rest" using v by auto
      then show ?thesis using f2 v ef by (auto simp: failed_post_def)
    qed
  qed
  then show ?thesis using a by (auto simp: failed_post_def)
qed

lemma found_head:
  assumes "found_post self path [q] p"
  shows "found_post self path (q # rest) p"
proof -
  from assms obtain r new where
    "p = path @ r # new" "r \<in> set [q]" "successively adjacent (r # new)"
    "\<forall>x \<in> set (r # new). passable self x \<and> \<not> seen self x"
    "distinct (r # new)" "is_exit self (last (r # new))"
    unfolding found_post_def by blast
  then show ?thesis
    unfolding found_post_def
    by (intro exI[of _ r] exI[of _ new]) simp
qed

lemma search_correct:
  "search_pre self [current_pos] \<Longrightarrow>
     search_ok (depth_first_search self path_found current_pos) self path_found [current_pos]"
  "path_found \<noteq> [] \<Longrightarrow> search_pre self positions \<Longrightarrow>
     search_ok (search_each self path_found positions) self path_found positions"
proof (induction self path_found current_pos and self path_found positions
    rule: depth_first_search_search_each.induct)
  case (1 self path_found q)
  have inb: "in_bounds self q" using "1.prems" by (simp add: search_pre_def passable_def)
  define self1 where "self1 = mark self (nat (row q), nat (col q))"
  note unf = dfs_unfold[OF inb, of path_found, folded self1_def]
  show ?case
  proof (cases "is_exit self q")
    case True
    then show ?thesis
      using found_exit[OF inb True "1.prems", of path_found] by (simp add: unf self1_def)
  next
    case False
    have ne: "tile (grid self (nat (row q), nat (col q))) \<noteq> Str EXIT"
      using False inb by (simp add: is_exit_def cell_at_def)
    have pre1: "search_pre self1 (get_available_positions self1 q)"
      by (auto simp: search_pre_def available_iff)
    have ok: "search_ok (search_each self1 (path_found @ [q]) (get_available_positions self1 q))
        self1 (path_found @ [q]) (get_available_positions self1 q)"
      using "1.IH"[OF in_bounds_index[OF inb] refl refl refl ne _ ] pre1
      by (simp add: self1_def mark_def)
    then obtain b s p where
      r: "search_each self1 (path_found @ [q]) (get_available_positions self1 q) = Inr (b, s, p)"
      and e1: "extends self1 s"
      and post: "if b then found_post self1 (path_found @ [q]) (get_available_positions self1 q) p
                 else p = path_found @ [q] \<and> failed_post self1 (get_available_positions self1 q) s"
      by (auto simp: search_ok_def split: sum.splits)
    have e: "extends self s"
      using extends_trans[OF extends_mark e1[unfolded self1_def]] .
    show ?thesis
    proof (cases b)
      case True
      then have "found_post self path_found [q] p"
        using found_below[OF inb "1.prems"] post by (simp add: self1_def)
      then show ?thesis using True r e False by (simp add: unf search_ok_def)
    next
      case b: False
      then have "failed_post self [q] s"
        using failed_below[OF inb "1.prems" False e1[unfolded self1_def]] post
        by (simp add: self1_def)
      then show ?thesis using b r e False post by (simp add: unf search_ok_def)
    qed
  qed
next
  case (2 self path_found)
  show ?case by (simp add: search_ok_def extends_refl failed_post_def)
next
  case (3 self path_found q rest)
  have preq: "search_pre self [q]" using "3.prems"(2) by (simp add: search_pre_def)
  from "3.IH"(1)[OF preq] obtain b1 s1 p1 where
    r1: "depth_first_search self path_found q = Inr (b1, s1, p1)"
    and e1: "extends self s1"
    and post1: "if b1 then found_post self path_found [q] p1
                else p1 = path_found \<and> failed_post self [q] s1"
    by (auto simp: search_ok_def split: sum.splits)
  show ?case
  proof (cases b1)
    case True
    then have "found_post self path_found (q # rest) p1"
      using post1 found_head by simp
    then show ?thesis using True r1 e1 by (simp add: search_ok_def)
  next
    case b1: False
    then have p1: "p1 = path_found" and f1: "failed_post self [q] s1" using post1 by auto
    have pre2: "search_pre s1 rest" using pre_rest[OF "3.prems"(2) e1 f1] .
    have "search_ok (search_each s1 p1 rest) s1 p1 rest"
      using "3.IH"(2)[OF r1 refl b1[THEN eq_False[THEN iffD2]] refl _ pre2] "3.prems"(1) p1 by simp
    then obtain b s p where
      r: "search_each s1 path_found rest = Inr (b, s, p)"
      and e2: "extends s1 s"
      and post: "if b then found_post s1 path_found rest p
                 else p = path_found \<and> failed_post s1 rest s"
      using p1 by (auto simp: search_ok_def split: sum.splits)
    have e: "extends self s" using extends_trans[OF e1 e2] .
    show ?thesis
    proof (cases b)
      case True
      then have "found_post self path_found (q # rest) p"
        using found_rest[OF e1] post by simp
      then show ?thesis using True b1 r1 r e p1 by (simp add: search_ok_def)
    next
      case False
      then have "failed_post self (q # rest) s"
        using failed_rest[OF e1 e2 f1] post by simp
      then show ?thesis using False b1 r1 r e p1 post by (simp add: search_ok_def)
    qed
  qed
qed

lemma route_seen:
  assumes st: "\<And>v. in_bounds self v \<Longrightarrow> seen s v \<Longrightarrow> closed s v"
    and ps: "passable s = passable self"
  shows "ps \<noteq> [] \<Longrightarrow> successively adjacent ps \<Longrightarrow> list_all (passable self) ps \<Longrightarrow>
         seen s (hd ps) \<Longrightarrow> seen s (last ps)"
proof (induction ps rule: induct_list012)
  case (3 x y zs)
  have "in_bounds self x" using "3.prems" by (simp add: passable_def)
  then have "closed s x" using st "3.prems" by simp
  then have "seen s y" using "3.prems" ps by (auto simp: closed_def)
  then show ?case using "3.IH"(2) "3.prems" by simp
qed simp_all

lemma find_way_out_sound_complete:
  assumes "fresh_maze self"
  shows "\<exists>r s. find_way_out self = Inr (r, s) \<and> extends self s \<and>
     (case r of
        Some ps \<Rightarrow> route self ps \<and> distinct ps
      | None \<Rightarrow> \<not> (\<exists>ps. route self ps))"
proof -
  define start where "start = start_position self"
  have fresh: "\<And>v. \<not> seen self v" and pstart: "passable self start"
    using assms by (auto simp: fresh_maze_def seen_def cell_at_def start_def)
  have "search_pre self [start]" using fresh pstart by (simp add: search_pre_def)
  from search_correct(1)[OF this, of "[]"] obtain b s p where
    r: "depth_first_search self [] start = Inr (b, s, p)" and e: "extends self s"
    and post: "if b then found_post self [] [start] p else p = [] \<and> failed_post self [start] s"
    by (auto simp: search_ok_def split: sum.splits)
  note ef = extends_facts[OF e]
  show ?thesis
  proof (cases b)
    case True
    then obtain new where
      p: "p = start # new" "successively adjacent (start # new)"
      "\<forall>x \<in> set (start # new). passable self x" "distinct (start # new)"
      "is_exit self (last (start # new))"
      using post by (auto simp: found_post_def)
    then have "route self p" by (simp add: route_def list_all_iff start_def)
    then show ?thesis using True r e p by (simp add: find_way_out_def start_def)
  next
    case False
    then have f: "failed_post self [start] s" using post by simp
    have st: "\<And>v. in_bounds self v \<Longrightarrow> seen s v \<Longrightarrow> settled s v"
      using f fresh by (auto simp: failed_post_def)
    have ss: "seen s start" using f by (simp add: failed_post_def)
    have "\<not> route self ps" for ps
    proof
      assume ro: "route self ps"
      then have "seen s (last ps)"
        using route_seen[of self s ps] st ef(2) ss
        by (auto simp: route_def settled_def start_def)
      moreover have "in_bounds self (last ps)" using ro by (simp add: route_def is_exit_def)
      ultimately have "\<not> is_exit s (last ps)" using st by (auto simp: settled_def)
      then show False using ro ef(3) by (simp add: route_def)
    qed
    then show ?thesis using False r e by (simp add: find_way_out_def start_def)
  qed
qed

lemma small_maze_init:
  "Maze_init (pos 0 0) [pos 1 1] [pos 1 0] [(0, pos 0 1)] 2 2 = Inr small_maze"
  by (simp add: Maze_init_def small_maze_def set_cell_def grid_index_def py_index_def pos_def
      blank_cell_def)

lemma small_maze_fresh: "fresh_maze small_maze"
  by (simp add: fresh_maze_def small_maze_def passable_def in_bounds_def cell_at_def pos_def
      blank_cell_def WALL_def START_POSITION_def)

lemma small_maze_route: "route small_maze [pos 0 0, pos 0 1, pos 1 1]"
  by (simp add: route_def small_maze_def passable_def is_exit_def in_bounds_def cell_at_def
      pos_def adjacent_def WALL_def EXIT_def START_POSITION_def)

lemma small_maze_way_out: "way_out small_maze = Inr (Some [pos 0 0, pos 0 1, pos 1 1])"
  by (simp add: way_out_def find_way_out_def depth_first_search.simps small_maze_def
      grid_index_def py_index_def pos_def get_available_positions_def exit_postions_def
      is_valid_position_def blank_cell_def WALL_def EXIT_def START_POSITION_def Let_def)

lemma example_maze_init:
  "Maze_init (pos 0 0) [pos 2 2] [] [(0, pos 1 1)] 3 3 = Inr example_maze"
  by (simp add: Maze_init_def example_maze_def set_cell_def grid_index_def py_index_def pos_def
      blank_cell_def)

lemma walled_maze_init:
  "Maze_init (pos 0 0) [pos 0 2] [pos 0 1] [] 1 3 = Inr walled_maze"
  by (simp add: Maze_init_def walled_maze_def set_cell_def grid_index_def py_index_def pos_def
      blank_cell_def)

lemma example_maze_fresh: "fresh_maze example_maze"
  by (simp add: fresh_maze_def example_maze_def passable_def in_bounds_def cell_at_def pos_def
      blank_cell_def WALL_def START_POSITION_def)

lemma walled_maze_way_out: "way_out walled_maze = Inr None"
  by (simp add: way_out_def find_way_out_def depth_first_search.simps walled_maze_def
      grid_index_def py_index_def pos_def get_available_positions_def exit_postions_def
      is_valid_position_def blank_cell_def WALL_def EXIT_def START_POSITION_def Let_def)

lemma example_maze_way_out:
  "way_out example_maze =
     Inr (Some [pos 0 0, pos 1 0, pos 2 0, pos 2 1, pos 1 1, pos 0 1, pos 0 2, pos 1 2, pos 2 2])"
  by (simp add: way_out_def find_way_out_def depth_first_search.simps example_maze_def
      grid_index_def py_index_def pos_def get_available_positions_def exit_postions_def
      is_valid_position_def blank_cell_def WALL_def EXIT_def START_POSITION_def Let_def)

lemma take_treasures_positions:
  "ps \<noteq> [] \<Longrightarrow> take_treasures hs (map PositionObj ps) c = Inl AttributeError"
  by (cases ps) (simp_all add: take_treasures_def)

lemma foldl_harvest_tiles:
  "map tile cells = map tile cells' \<Longrightarrow>
   foldl harvest_step acc cells = foldl harvest_step acc cells'"
proof (induction cells arbitrary: cells' acc)
  case Nil
  then show ?case by simp
next
  case (Cons x xs)
  then obtain y ys where c: "cells' = y # ys" "tile x = tile y" "map tile xs = map tile ys"
    by (cases cells') auto
  have "harvest_step acc x = harvest_step acc y" using c(2) by (cases acc) (simp_all add: harvest_step_def)
  then show ?case using Cons.IH[OF c(3)] c(1) by simp
qed

lemma harvest_tiles:
  "map tile cells = map tile cells' \<Longrightarrow> harvest hs cells c = harvest hs cells' c"
  by (simp add: harvest_def foldl_harvest_tiles[of cells cells'])

lemma extends_tile:
  "extends self s \<Longrightarrow> tile (cell_at s p) = tile (cell_at self p)"
  by (simp add: extends_def cell_at_def)

lemma take_treasures_fold:
  "take_treasures hs (map MazeCellObj cells) capacity = harvest hs cells capacity"
  by (auto simp: take_treasures_def harvest_def loop_is_fold split: sum.splits)

lemma example_harvest:
  "harvest example_hollows
     (map (cell_at example_maze)
        [pos 0 0, pos 1 0, pos 2 0, pos 2 1, pos 1 1, pos 0 1, pos 0 2, pos 1 2, pos 2 2]) 3
   = Inr (Some [coin], example_hollows (0 := Spooky (Node Leaf 1 rock Leaf)))"
  by (simp add: harvest_def harvest_step_def example_maze_def example_hollows_def cell_at_def
      pos_def blank_cell_def get_optimal_treasure_def spooky_as_find feasible_def)

lemma set_cell_unvisited:
  assumes "set_cell self p f = Inr s" "\<forall>idx. \<not> visited (grid self idx)"
    "\<And>cell. \<not> visited cell \<Longrightarrow> \<not> visited (f cell)"
  shows "same_frame self s \<and> (\<forall>idx. \<not> visited (grid s idx))"
  using assms by (auto simp: set_cell_def same_frame_def split: option.splits if_splits)

lemma set_tiles_unvisited:
  "set_tiles self pts = Inr s \<Longrightarrow> \<forall>idx. \<not> visited (grid self idx) \<Longrightarrow>
   same_frame self s \<and> (\<forall>idx. \<not> visited (grid s idx))"
proof (induction pts arbitrary: self)
  case Nil
  then show ?case by (simp add: same_frame_def)
next
  case (Cons pt pts)
  obtain p t where pt: "pt = (p, t)" by (cases pt)
  from Cons.prems(1) obtain s1 where
    s1: "set_cell self p (\<lambda>cell. cell\<lparr>tile := t\<rparr>) = Inr s1" "set_tiles s1 pts = Inr s"
    by (auto simp: pt split: sum.splits)
  from set_cell_unvisited[OF s1(1) Cons.prems(2)]
  have 1: "same_frame self s1" "\<forall>idx. \<not> visited (grid s1 idx)" by auto
  from Cons.IH[OF s1(2) 1(2)] 1(1) show ?case by (auto simp: same_frame_def)
qed

lemma Maze_init_fresh:
  assumes "Maze_init start ends walls hollow_list r c = Inr self"
  shows "start_position self = start \<and> end_positions self = ends \<and> rows self = r \<and>
         cols self = c \<and> (\<forall>idx. \<not> visited (grid self idx))"
proof -
  define self0 where "self0 = \<lparr>start_position = start, end_positions = ends, rows = r, cols = c,
                    grid = blank_cell\<rparr>"
  have u0: "\<forall>idx. \<not> visited (grid self0 idx)" by (simp add: self0_def blank_cell_def)
  from assms obtain s1 s2 s3 where
    s: "set_cell self0 start
          (\<lambda>cell. \<lparr>tile = Str START_POSITION, position = start, visited = False\<rparr>) = Inr s1"
       "set_tiles s1 (map (\<lambda>wall. (wall, Str WALL)) walls) = Inr s2"
       "set_tiles s2 (map (\<lambda>(hollow, pos). (pos, HollowTile hollow)) hollow_list) = Inr s3"
       "set_tiles s3 (map (\<lambda>end_position. (end_position, Str EXIT)) ends) = Inr self"
    by (auto simp: Maze_init_def self0_def[symmetric] Let_def split: sum.splits)
  from set_cell_unvisited[OF s(1) u0] have 1: "same_frame self0 s1" "\<forall>idx. \<not> visited (grid s1 idx)" by auto
  from set_tiles_unvisited[OF s(2) 1(2)] have 2: "same_frame s1 s2" "\<forall>idx. \<not> visited (grid s2 idx)" by auto
  from set_tiles_unvisited[OF s(3) 2(2)] have 3: "same_frame s2 s3" "\<forall>idx. \<not> visited (grid s3 idx)" by auto
  from set_tiles_unvisited[OF s(4) 3(2)] have 4: "same_frame s3 self" "\<forall>idx. \<not> visited (grid self idx)" by auto
  show ?thesis using 1(1) 2(1) 3(1) 4 by (simp add: same_frame_def self0_def)
qed

lemma Maze_init_fresh_maze:
  "Maze_init start ends walls hollow_list r c = Inr self \<Longrightarrow> passable self start \<Longrightarrow>
   fresh_maze self"
  using Maze_init_fresh[of start ends walls hollow_list r c self] by (simp add: fresh_maze_def)

lemma small_maze_start: "passable small_maze (pos 0 0)"
  using small_maze_fresh by (simp add: fresh_maze_def small_maze_def)

lemma example_maze_start: "passable example_maze (pos 0 0)"
  using example_maze_fresh by (simp add: fresh_maze_def example_maze_def)

section \<open>Claims about \<open>SpookyHollow.get_optimal_treasure\<close>\<close>

text \<open>
  C3.  If the store is empty, or no stored treasure has a weight within the capacity,
  then \<open>get_optimal_treasure\<close> returns \<open>None\<close> without raising, and the tree it leaves is
  the tree it was given.
\<close>

theorem spooky_none_unchanged:
  assumes "is_empty t \<or> (\<forall>x \<in> set (stored t). \<not> weight x \<le> c)"
  shows "spooky_get_optimal_treasure t c = Inr (None, t)"
  using assms by (rule spooky_none)

theorem spooky_none_unchanged_witness:
  "spooky_get_optimal_treasure
     (Node Leaf 2 \<lparr>name = ''crown'', weight = 10, worth = 20\<rparr> Leaf) 5
   = Inr (None, Node Leaf 2 \<lparr>name = ''crown'', weight = 10, worth = 20\<rparr> Leaf)"
  using spooky_none_unchanged
    [of "Node Leaf 2 \<lparr>name = ''crown'', weight = 10, worth = 20\<rparr> Leaf" 5]
  by (simp add: stored_def)

text \<open>
  C1.  The docstring of \<open>get_optimal_treasure\<close> asks that only the returned treasure be
  removed and no other.  The code does not do that when two stored treasures have the
  same ratio: the store is a tree keyed by ratio and \<open>del self.treasures[key]\<close> removes
  the first node with that key on the search path, which need not be the node whose
  treasure is returned.  With the crown (weight 10, ratio 2) and the ring (weight 1,
  ratio 2) and capacity 5 the ring is returned, the crown is removed and the ring stays
  in the store, whichever side equal keys are inserted on.
\<close>

theorem spooky_removes_other_treasure:
  "spooky_restructure_hollow TieRight [crown, ring]
     = Inr (Node Leaf 2 crown (Node Leaf 2 ring Leaf))
   \<and> spooky_get_optimal_treasure (Node Leaf 2 crown (Node Leaf 2 ring Leaf)) 5
     = Inr (Some ring, Node Leaf 2 ring Leaf)
   \<and> spooky_restructure_hollow TieLeft [crown, ring]
     = Inr (Node (Node Leaf 2 ring Leaf) 2 crown Leaf)
   \<and> spooky_get_optimal_treasure (Node (Node Leaf 2 ring Leaf) 2 crown Leaf) 5
     = Inr (Some ring, Node Leaf 2 ring Leaf)
   \<and> stored (Node Leaf 2 ring Leaf) = [ring]"
  by (simp add: tied_store_right tied_store_left spooky_as_find feasible_def stored_def)

text \<open>
  What is returned is right all the same, equal ratios included: on every store whose
  keys are the ratios of its treasures, in ascending order, a call with a capacity that
  some stored treasure fits raises nothing and returns a stored treasure of weight \<open>\<le> c\<close>
  whose ratio is maximal among the stored treasures of weight \<open>\<le> c\<close>.
\<close>

lemma spooky_returns_best:
  assumes srt: "sorted (map fst (inorder t))"
    and key: "list_all (\<lambda>p. fst p = value_to_weight_ratio (snd p)) (inorder t)"
    and ex: "\<exists>x \<in> set (stored t). weight x \<le> c"
  shows "\<exists>x t'. spooky_get_optimal_treasure t c = Inr (Some x, t') \<and>
           x \<in> set (stored t) \<and> weight x \<le> c \<and>
           (\<forall>y \<in> set (stored t). weight y \<le> c \<longrightarrow>
                value_to_weight_ratio y \<le> value_to_weight_ratio x)"
proof -
  have k: "\<forall>q \<in> set (inorder t). fst q = value_to_weight_ratio (snd q)"
    using key by (simp add: list_all_iff)
  from ex have "\<exists>q \<in> set (inorder t). feasible c q"
    by (auto simp: stored_def feasible_def)
  then obtain p where f: "find (feasible c) (rev (inorder t)) = Some p"
    using find_rev_Some[of "inorder t" "feasible c"] by auto
  from find_rev_sorted[OF srt f]
  have p: "p \<in> set (inorder t)" "feasible c p"
    "\<forall>q \<in> set (inorder t). feasible c q \<longrightarrow> fst q \<le> fst p" by auto
  have "fst p \<in> fst ` set (inorder t)" using p(1) by blast
  from delete_aux_succeeds[OF srt this] obtain t' where t': "delete_aux t (fst p) = Inr t'"
    by blast
  have res: "spooky_get_optimal_treasure t c = Inr (Some (snd p), t')"
    by (simp add: spooky_as_find f t')
  have xin: "snd p \<in> set (stored t)" using p(1) by (auto simp: stored_def)
  have le: "\<forall>y \<in> set (stored t). weight y \<le> c \<longrightarrow>
      value_to_weight_ratio y \<le> value_to_weight_ratio (snd p)"
  proof (intro ballI impI)
    fix y assume "y \<in> set (stored t)" "weight y \<le> c"
    then obtain q where "q \<in> set (inorder t)" "snd q = y" "feasible c q"
      by (auto simp: stored_def feasible_def)
    then show "value_to_weight_ratio y \<le> value_to_weight_ratio (snd p)"
      using p(3) p(1) k by fastforce
  qed
  show ?thesis using res xin p(2) le by (auto simp: feasible_def)
qed

text \<open>
  The removal goes wrong only at equal ratios.  For every store whose treasures have
  pairwise distinct ratios and every capacity \<open>c\<close>: if some stored treasure has weight
  \<open>\<le> c\<close>, then \<open>get_optimal_treasure\<close> raises nothing and returns a stored treasure of
  weight \<open>\<le> c\<close> whose ratio is maximal among the stored treasures of weight \<open>\<le> c\<close>;
  exactly that treasure is removed (the store afterwards plus the returned treasure is the
  store before, and the returned treasure is no longer in it), and the ratios of the store
  stay pairwise distinct.
\<close>

theorem spooky_extracts_best:
  assumes inv: "spooky_inv t" and ex: "\<exists>x \<in> set (stored t). weight x \<le> c"
  shows "\<exists>x t'. spooky_get_optimal_treasure t c = Inr (Some x, t') \<and>
           x \<in> set (stored t) \<and> weight x \<le> c \<and>
           (\<forall>y \<in> set (stored t). weight y \<le> c \<longrightarrow>
                value_to_weight_ratio y \<le> value_to_weight_ratio x) \<and>
           mset (stored t') + {#x#} = mset (stored t) \<and> x \<notin> set (stored t') \<and>
           spooky_inv t'"
  using inv ex by (rule spooky_feasible)

theorem spooky_extracts_best_witness:
  "spooky_restructure_hollow TieRight [coin, rock] = Inr (Node Leaf 1 rock (Node Leaf 5 coin Leaf))
   \<and> spooky_get_optimal_treasure (Node Leaf 1 rock (Node Leaf 5 coin Leaf)) 3
       = Inr (Some coin, Node Leaf 1 rock Leaf)"
proof -
  have inv: "spooky_inv (Node Leaf 1 rock (Node Leaf 5 coin Leaf))"
    by (simp add: spooky_inv_def)
  have ex: "\<exists>x \<in> set (stored (Node Leaf 1 rock (Node Leaf 5 coin Leaf))). weight x \<le> 3"
    by (simp add: stored_def)
  have "spooky_get_optimal_treasure (Node Leaf 1 rock (Node Leaf 5 coin Leaf)) 3
       = Inr (Some coin, Node Leaf 1 rock Leaf)"
    using spooky_extracts_best[OF inv ex]
    by (simp add: spooky_as_find feasible_def)
  then show ?thesis by (simp add: example_store)
qed

section \<open>Claims about the bulk build of \<open>BetterBST\<close>\<close>

lemma log_2_4: "log 2 4 = 2"
proof -
  have "log 2 (2 ^ 2) = real 2" by (rule log_pow_cancel) auto
  then show ?thesis by simp
qed

lemma three_equal_keys_right:
  "BetterBST TieRight [(1::int, ''a''), (1, ''b''), (1, ''c'')]
     = Inr (Node Leaf 1 ''b'' (Node Leaf 1 ''a'' (Node Leaf 1 ''c'' Leaf)))"
  by (simp add: BetterBST_fold midpoint_order.simps ins_Node ins_Leaf)

lemma three_equal_keys_left:
  "BetterBST TieLeft [(1::int, ''a''), (1, ''b''), (1, ''c'')]
     = Inr (Node (Node (Node Leaf 1 ''c'' Leaf) 1 ''a'' Leaf) 1 ''b'' Leaf)"
  by (simp add: BetterBST_fold midpoint_order.simps ins_Node ins_Leaf)

text \<open>
  C7, as stated, fails: the build does not place the sorted elements directly, it
  inserts them one by one from the root, and an element whose key equals a key already
  in the tree lands beside that node's whole subtree.  For three elements \<open>a\<close>, \<open>b\<close>, \<open>c\<close>
  of equal key the midpoint \<open>b\<close> becomes the root and the in-order traversal is
  \<open>b, a, c\<close> when equal keys go right and \<open>c, a, b\<close> when they go left; the stable order
  is \<open>a, b, c\<close>.
\<close>

theorem BetterBST_not_stable:
  "BetterBST TieRight [(1::int, ''a''), (1, ''b''), (1, ''c'')]
     = Inr (Node Leaf 1 ''b'' (Node Leaf 1 ''a'' (Node Leaf 1 ''c'' Leaf)))
   \<and> inorder (Node Leaf (1::int) ''b'' (Node Leaf 1 ''a'' (Node Leaf 1 ''c'' Leaf)))
       \<noteq> mergesort [(1::int, ''a''), (1, ''b''), (1, ''c'')] fst
   \<and> BetterBST TieLeft [(1::int, ''a''), (1, ''b''), (1, ''c'')]
     = Inr (Node (Node (Node Leaf 1 ''c'' Leaf) 1 ''a'' Leaf) 1 ''b'' Leaf)
   \<and> inorder (Node (Node (Node Leaf (1::int) ''c'' Leaf) 1 ''a'' Leaf) 1 ''b'' Leaf)
       \<noteq> mergesort [(1::int, ''a''), (1, ''b''), (1, ''c'')] fst"
  by (simp add: three_equal_keys_right three_equal_keys_left mergesort_def)

text \<open>
  C7, amended.  For every input list the build raises nothing, the in-order traversal
  of the tree holds exactly the input elements (as a multiset) and is ascending by key;
  when the keys of the input are pairwise distinct it is the input sorted by key.
\<close>

theorem BetterBST_inorder:
  "\<exists>t. BetterBST tb elements = Inr t \<and> mset (inorder t) = mset elements \<and>
       sorted (map fst (inorder t)) \<and>
       (distinct (map fst elements) \<longrightarrow> inorder t = mergesort elements fst)"
proof -
  define t where "t = foldl (ins tb) Leaf (midpoint_order (sort_key fst elements))"
  have 1: "BetterBST tb elements = Inr t" by (simp add: BetterBST_fold t_def)
  have 2: "mset (inorder t) = mset elements"
    by (simp add: t_def mset_foldl_ins mset_midpoint_order)
  have 3: "sorted (map fst (inorder t))"
    unfolding t_def by (rule sorted_foldl_ins) simp
  have 4: "inorder t = mergesort elements fst" if "distinct (map fst elements)"
    using BetterBST_balanced[OF that, of tb] 1 by (simp add: inorder_balanced mergesort_def)
  show ?thesis using 1 2 3 4 by blast
qed

theorem BetterBST_inorder_witness:
  "distinct (map fst [(3::int, ''c''), (1, ''a''), (2, ''b'')]) \<and>
   (\<exists>t. BetterBST TieRight [(3::int, ''c''), (1, ''a''), (2, ''b'')] = Inr t \<and>
        inorder t = [(1, ''a''), (2, ''b''), (3, ''c'')])"
  using BetterBST_inorder [of TieRight "[(3::int, ''c''), (1, ''a''), (2, ''b'')]"]
  by (auto simp: mergesort_def)

text \<open>
  C8.  The docstring of \<open>__build_balanced_tree\<close> promises a balanced binary search tree
  built from the sorted elements, and counts on the tree being always balanced; the
  midpoint recursion is there to get one.  The build does not give one when keys are
  equal: every midpoint is inserted from the root, so three elements of equal key form a
  chain of height 3, above \<open>\<lceil>log\<^sub>2 (3 + 1)\<rceil> = 2\<close>, whichever side equal keys are inserted
  on.
\<close>

theorem BetterBST_height_exceeded:
  "BetterBST TieRight [(1::int, ''a''), (1, ''b''), (1, ''c'')]
     = Inr (Node Leaf 1 ''b'' (Node Leaf 1 ''a'' (Node Leaf 1 ''c'' Leaf)))
   \<and> \<not> height (Node Leaf (1::int) ''b'' (Node Leaf 1 ''a'' (Node Leaf 1 ''c'' Leaf)))
         \<le> nat \<lceil>log 2 (real (length [(1::int, ''a''), (1, ''b''), (1, ''c'')]) + 1)\<rceil>
   \<and> BetterBST TieLeft [(1::int, ''a''), (1, ''b''), (1, ''c'')]
     = Inr (Node (Node (Node Leaf 1 ''c'' Leaf) 1 ''a'' Leaf) 1 ''b'' Leaf)
   \<and> \<not> height (Node (Node (Node Leaf (1::int) ''c'' Leaf) 1 ''a'' Leaf) 1 ''b'' Leaf)
         \<le> nat \<lceil>log 2 (real (length [(1::int, ''a''), (1, ''b''), (1, ''c'')]) + 1)\<rceil>"
  by (simp add: three_equal_keys_right three_equal_keys_left log_2_4)

text \<open>
  The bound is missed only at equal keys.  For every input list of \<open>n\<close> pairs with
  pairwise distinct keys the build raises nothing and the height of the tree (counted in
  nodes) is at most \<open>\<lceil>log\<^sub>2 (n + 1)\<rceil>\<close>.
\<close>

theorem BetterBST_height:
  assumes "distinct (map fst elements)"
  shows "\<exists>t. BetterBST tb elements = Inr t \<and>
             height t \<le> nat \<lceil>log 2 (real (length elements) + 1)\<rceil>"
  using BetterBST_balanced[OF assms, of tb] height_balanced_log[of "sort_key fst elements"]
  by simp

theorem BetterBST_height_witness:
  "distinct (map fst [(3::int, ''c''), (1, ''a''), (2, ''b'')]) \<and>
   (\<exists>t. BetterBST TieLeft [(3::int, ''c''), (1, ''a''), (2, ''b'')] = Inr t \<and>
        height t \<le> 2)"
  using BetterBST_height [of "[(3::int, ''c''), (1, ''a''), (2, ''b'')]" TieLeft]
  by (simp add: log_2_4)

section \<open>Claims about \<open>MysticalHollow\<close>\<close>

lemma mystical_result:
  "\<exists>r h b. pop_until_fits c (heap hollow) [] = Inr (r, h, b) \<and>
      mystical_get_optimal_treasure hollow c = Inr (r, hollow\<lparr>heap := foldl add h b\<rparr>) \<and>
      mset (heap hollow) = mset (foldl add h b) + taken r"
proof -
  from pop_until_fits_mset[of c "heap hollow" "[]"] obtain r h b where
    p: "pop_until_fits c (heap hollow) [] = Inr (r, h, b)"
    "mset (heap hollow) + mset [] = mset h + mset b + taken r" by blast
  then show ?thesis
    by (simp add: mystical_get_optimal_treasure_def heap_equals_zero_def mset_foldl_add)
qed

text \<open>
  C2.  A call of \<open>MysticalHollow.get_optimal_treasure\<close> raises nothing.  When it returns
  \<open>None\<close> the multiset of treasures in the heap is the one before the call; when it
  returns a treasure, that treasure was in the heap and the multiset afterwards is the
  one before minus that treasure.
\<close>

theorem mystical_heap_multiset:
  "\<exists>r hollow'. mystical_get_optimal_treasure hollow c = Inr (r, hollow') \<and>
     ((r = None \<and> mset (heap hollow') = mset (heap hollow)) \<or>
      (\<exists>x. r = Some x \<and> x \<in># mset (heap hollow) \<and>
           mset (heap hollow') = mset (heap hollow) - {#x#}))"
proof -
  from mystical_result[of c hollow] obtain r h b where
    m: "mystical_get_optimal_treasure hollow c = Inr (r, hollow\<lparr>heap := foldl add h b\<rparr>)"
    "mset (heap hollow) = mset (foldl add h b) + taken r" by blast
  show ?thesis
  proof (cases r)
    case None
    then show ?thesis using m by (simp add: taken_def)
  next
    case (Some x)
    then show ?thesis using m by (simp add: taken_def)
  qed
qed

text \<open>
  C10.  \<open>len\<close> of a mystical hollow is the length of the generated treasure list, and a
  call of \<open>get_optimal_treasure\<close> leaves the \<open>treasures\<close> attribute, and with it \<open>len\<close>,
  as it was, whether or not a treasure is extracted.
\<close>

theorem mystical_len_unchanged:
  "hollow_len (mystical_restructure_hollow generated) = length generated \<and>
   (\<exists>r hollow'. mystical_get_optimal_treasure hollow c = Inr (r, hollow') \<and>
        treasures hollow' = treasures hollow \<and> hollow_len hollow' = hollow_len hollow)"
proof -
  from mystical_result[of c hollow] obtain r h b where
    "mystical_get_optimal_treasure hollow c = Inr (r, hollow\<lparr>heap := foldl add h b\<rparr>)"
    by blast
  then show ?thesis by (simp add: hollow_len_def mystical_restructure_hollow_def)
qed

section \<open>Claim about the two stores side by side\<close>

text \<open>
  C6.  The two stores do not give the same sequence when two treasures have the same
  ratio, and no rule for breaking ties is involved: built from the crown and the ring
  (both of ratio 2, the crown too heavy) and asked twice with capacity 5, the heap returns
  the ring once and then nothing, while the tree returns the ring twice, because its first
  call removes the crown instead of the ring it returns.  This is the removal of the wrong
  node by \<open>SpookyHollow.get_optimal_treasure\<close> again, seen from the outside.
\<close>

theorem stores_disagree_on_ties:
  "spooky_restructure_hollow TieRight [crown, ring]
     = Inr (Node Leaf 2 crown (Node Leaf 2 ring Leaf))
   \<and> spooky_run (Node Leaf 2 crown (Node Leaf 2 ring Leaf)) [5, 5]
     = Inr [Some ring, Some ring]
   \<and> spooky_restructure_hollow TieLeft [crown, ring]
     = Inr (Node (Node Leaf 2 ring Leaf) 2 crown Leaf)
   \<and> spooky_run (Node (Node Leaf 2 ring Leaf) 2 crown Leaf) [5, 5]
     = Inr [Some ring, Some ring]
   \<and> mystical_run (mystical_restructure_hollow [crown, ring]) [5, 5]
     = Inr [Some ring, None]"
  by (simp only: tied_store_right tied_store_left spooky_tied mystical_tied)

text \<open>
  Where the removal is right the stores agree.  For every two lists of generated
  treasures that hold the same treasures (in any two orders), with pairwise distinct
  ratios, and every sequence of capacities, the tree store built from the one and the heap
  store built from the other raise nothing and give the same sequence of results (the same
  treasure, or \<open>None\<close>, at every call).
\<close>

theorem stores_agree:
  assumes "distinct (map value_to_weight_ratio generated)"
    and "mset generated' = mset generated"
  shows "\<exists>t rs. spooky_restructure_hollow tb generated = Inr t \<and>
            spooky_run t capacities = Inr rs \<and>
            mystical_run (mystical_restructure_hollow generated') capacities = Inr rs"
proof -
  from spooky_restructure_hollow_inv[OF assms(1), of tb] obtain t where
    t: "spooky_restructure_hollow tb generated = Inr t" "spooky_inv t"
    "mset (stored t) = mset generated" by blast
  have "heap_inv (heap (mystical_restructure_hollow generated'))"
    "mset (stored t) = mset (heap (mystical_restructure_hollow generated'))"
    using t(3) assms(2) by (simp_all add: mystical_restructure_hollow_def heap_inv_heapify)
  from runs_agree[OF t(2) this] t(1) show ?thesis by blast
qed

theorem stores_agree_witness:
  "distinct (map value_to_weight_ratio [coin, rock]) \<and>
   spooky_run (Node Leaf 1 rock (Node Leaf 5 coin Leaf)) [3, 3, 5]
     = Inr [Some coin, None, Some rock] \<and>
   mystical_run (mystical_restructure_hollow [rock, coin]) [3, 3, 5]
     = Inr [Some coin, None, Some rock]"
proof -
  have d: "distinct (map value_to_weight_ratio [coin, rock])" by simp
  have m: "mset [rock, coin] = mset [coin, rock]" by simp
  have s: "spooky_run (Node Leaf 1 rock (Node Leaf 5 coin Leaf)) [3, 3, 5]
     = Inr [Some coin, None, Some rock]"
    by (simp add: spooky_as_find feasible_def)
  show ?thesis
    using stores_agree[OF d m, of TieRight "[3, 3, 5]"] d s by (simp add: example_store)
qed

section \<open>Claims about the maze: \<open>find_way_out\<close> and \<open>take_treasures\<close>\<close>

text \<open>
  C4.  A route is a non-empty list of positions from the start to a cell with the exit
  tile in which every position is in bounds and not a wall and each is orthogonally
  adjacent to the next.  On every maze the constructor builds, with its start cell in
  bounds and not a wall, \<open>find_way_out\<close> raises nothing; when a route exists it returns one
  whose positions are pairwise distinct, and when none exists it returns \<open>None\<close>.
\<close>

theorem find_way_out_correct:
  assumes "Maze_init start ends walls hollow_list r c = Inr self" "passable self start"
  shows "((\<exists>ps. route self ps) \<longrightarrow>
            (\<exists>ps s. find_way_out self = Inr (Some ps, s) \<and> route self ps \<and> distinct ps)) \<and>
         (\<not> (\<exists>ps. route self ps) \<longrightarrow> (\<exists>s. find_way_out self = Inr (None, s)))"
proof -
  have "fresh_maze self" using assms by (rule Maze_init_fresh_maze)
  from find_way_out_sound_complete[OF this] obtain r s where
    f: "find_way_out self = Inr (r, s)"
    and c: "case r of Some ps \<Rightarrow> route self ps \<and> distinct ps | None \<Rightarrow> \<not> (\<exists>ps. route self ps)"
    by blast
  show ?thesis
  proof (cases r)
    case None
    then show ?thesis using f c by auto
  next
    case (Some ps)
    then show ?thesis using f c by auto
  qed
qed

theorem find_way_out_correct_witness:
  "Maze_init (pos 0 0) [pos 1 1] [pos 1 0] [(0, pos 0 1)] 2 2 = Inr small_maze \<and>
   passable small_maze (pos 0 0) \<and> route small_maze [pos 0 0, pos 0 1, pos 1 1] \<and>
   (\<exists>ps s. find_way_out small_maze = Inr (Some ps, s) \<and> route small_maze ps \<and> distinct ps)"
  using find_way_out_correct[OF small_maze_init small_maze_start]
    small_maze_init small_maze_start small_maze_route
  by blast

text \<open>
  C5.  On a list of cells \<open>take_treasures\<close> is the left fold of the specification: the
  cells in path order, at each hollow-bearing cell that hollow's extraction with the
  capacity left by the earlier cells, a returned treasure appended and its weight
  subtracted; the result is the list collected, or \<open>None\<close> when it is empty.
\<close>

theorem take_treasures_is_fold:
  "take_treasures hs (map MazeCellObj cells) capacity = harvest hs cells capacity"
  by (rule take_treasures_fold)

text \<open>
  C9, as stated, fails: \<open>find_way_out\<close> returns positions and \<open>take_treasures\<close> reads the
  \<open>tile\<close> of each element it is given, which a position does not have.  On the 3 by 3
  maze of the specification's end-to-end example the way out is found and
  \<open>take_treasures\<close> applied to it raises at the first element.
\<close>

theorem way_out_not_cells:
  "way_out example_maze =
     Inr (Some [pos 0 0, pos 1 0, pos 2 0, pos 2 1, pos 1 1, pos 0 1, pos 0 2, pos 1 2, pos 2 2]) \<and>
   take_treasures example_hollows
     (map PositionObj
        [pos 0 0, pos 1 0, pos 2 0, pos 2 1, pos 1 1, pos 0 1, pos 0 2, pos 1 2, pos 2 2]) 3
     = Inl AttributeError"
  by (simp add: example_maze_way_out take_treasures_def)

text \<open>
  C9, amended.  On a maze the constructor builds, with its start cell in bounds and not a
  wall, a sequence returned by \<open>find_way_out\<close> is a non-empty
  list of in-bounds positions.  \<open>take_treasures\<close> applied to it as it is raises
  \<open>AttributeError\<close>; applied to the cells that the grid holds at those positions, the
  tile of every element can be read and is the tile the maze had before the search, and
  the result is the harvest fold over the cells of the discovered path.
\<close>

theorem way_out_is_positions:
  assumes "Maze_init start ends walls hollow_list r c' = Inr self" "passable self start"
    and "find_way_out self = Inr (Some ps, s)"
  shows "ps \<noteq> [] \<and> list_all (in_bounds self) ps \<and>
         take_treasures hs (map PositionObj ps) c = Inl AttributeError \<and>
         map (\<lambda>p. tile_of (MazeCellObj (cell_at s p))) ps = map (\<lambda>p. Inr (tile (cell_at self p))) ps \<and>
         take_treasures hs (map (\<lambda>p. MazeCellObj (cell_at s p)) ps) c
           = harvest hs (map (cell_at self) ps) c"
proof -
  have "fresh_maze self" using assms(1,2) by (rule Maze_init_fresh_maze)
  from find_way_out_sound_complete[OF this] assms(3)
  have e: "extends self s" and r: "route self ps" by auto
  have ne: "ps \<noteq> []" using r by (simp add: route_def)
  have inb: "list_all (in_bounds self) ps" using r by (auto simp: route_def list_all_iff passable_def)
  have t: "map (\<lambda>p. tile_of (MazeCellObj (cell_at s p))) ps = map (\<lambda>p. Inr (tile (cell_at self p))) ps"
    by (simp add: extends_tile[OF e])
  have "take_treasures hs (map (\<lambda>p. MazeCellObj (cell_at s p)) ps) c
      = take_treasures hs (map MazeCellObj (map (cell_at s) ps)) c" by (simp add: comp_def)
  also have "\<dots> = harvest hs (map (cell_at s) ps) c"
    by (rule take_treasures_fold)
  also have "\<dots> = harvest hs (map (cell_at self) ps) c"
    by (rule harvest_tiles) (simp add: extends_tile[OF e])
  finally show ?thesis using ne inb t take_treasures_positions[OF ne] by simp
qed

theorem way_out_is_positions_witness:
  "Maze_init (pos 0 0) [pos 2 2] [] [(0, pos 1 1)] 3 3 = Inr example_maze \<and>
   (\<exists>s. find_way_out example_maze =
           Inr (Some [pos 0 0, pos 1 0, pos 2 0, pos 2 1, pos 1 1, pos 0 1, pos 0 2, pos 1 2, pos 2 2], s) \<and>
        take_treasures example_hollows
          (map (\<lambda>p. MazeCellObj (cell_at s p))
             [pos 0 0, pos 1 0, pos 2 0, pos 2 1, pos 1 1, pos 0 1, pos 0 2, pos 1 2, pos 2 2]) 3
        = Inr (Some [coin], example_hollows (0 := Spooky (Node Leaf 1 rock Leaf))))"
proof -
  from example_maze_way_out obtain s where
    f: "find_way_out example_maze =
       Inr (Some [pos 0 0, pos 1 0, pos 2 0, pos 2 1, pos 1 1, pos 0 1, pos 0 2, pos 1 2, pos 2 2], s)"
    by (cases "find_way_out example_maze") (auto simp: way_out_def)
  have "take_treasures example_hollows
          (map (\<lambda>p. MazeCellObj (cell_at s p))
             [pos 0 0, pos 1 0, pos 2 0, pos 2 1, pos 1 1, pos 0 1, pos 0 2, pos 1 2, pos 2 2]) 3
        = harvest example_hollows
     (map (cell_at example_maze)
        [pos 0 0, pos 1 0, pos 2 0, pos 2 1, pos 1 1, pos 0 1, pos 0 2, pos 1 2, pos 2 2]) 3"
    using way_out_is_positions[OF example_maze_init example_maze_start f, of example_hollows 3]
    by (elim conjE)
  then show ?thesis using f example_maze_init unfolding example_harvest by blast
qed


end
